theory Spec2Isabelle
  imports Complex_Main "HOL-Library.Word"
begin

unbundle bit_operations_syntax

section \<open>Byte strings\<close>

text \<open>
  Go's \<open>[]byte\<close> and \<open>string\<close> values are sequences of bytes; they are modelled as
  \<open>string\<close>, a list of 8-bit characters.
\<close>

abbreviation LF :: char where "LF \<equiv> CHR 0x0A"
abbreviation CR :: char where "CR \<equiv> CHR 0x0D"

text \<open>
  \<open>bytes.TrimSpace\<close> is \<open>TrimFunc(s, unicode.IsSpace)\<close>: it decodes the runes of the slice
  as UTF-8 from the front, and then from the end, and drops the runes for which
  \<open>unicode.IsSpace\<close> holds. These runes are U+0009 to U+000D, U+0020, U+0085, U+00A0,
  U+1680, U+2000 to U+200A, U+2028, U+2029, U+202F, U+205F and U+3000; \<open>spaceRunes\<close>
  lists their encodings. A slice starts (or ends) with such a rune exactly when it
  starts (or ends) with one of these encodings: a byte sequence that is not valid UTF-8
  decodes to \<open>utf8.RuneError\<close>, which is no white space.
\<close>

definition spaceRunes :: "string list" where
  "spaceRunes =
     [[CHR 0x09], [CHR 0x0A], [CHR 0x0B], [CHR 0x0C], [CHR 0x0D], [CHR 0x20],
      [CHR 0xC2, CHR 0x85], [CHR 0xC2, CHR 0xA0],
      [CHR 0xE1, CHR 0x9A, CHR 0x80],
      [CHR 0xE2, CHR 0x80, CHR 0x80], [CHR 0xE2, CHR 0x80, CHR 0x81],
      [CHR 0xE2, CHR 0x80, CHR 0x82], [CHR 0xE2, CHR 0x80, CHR 0x83],
      [CHR 0xE2, CHR 0x80, CHR 0x84], [CHR 0xE2, CHR 0x80, CHR 0x85],
      [CHR 0xE2, CHR 0x80, CHR 0x86], [CHR 0xE2, CHR 0x80, CHR 0x87],
      [CHR 0xE2, CHR 0x80, CHR 0x88], [CHR 0xE2, CHR 0x80, CHR 0x89],
      [CHR 0xE2, CHR 0x80, CHR 0x8A],
      [CHR 0xE2, CHR 0x80, CHR 0xA8], [CHR 0xE2, CHR 0x80, CHR 0xA9],
      [CHR 0xE2, CHR 0x80, CHR 0xAF],
      [CHR 0xE2, CHR 0x81, CHR 0x9F],
      [CHR 0xE3, CHR 0x80, CHR 0x80]]"

definition runeWidth :: "string list \<Rightarrow> string \<Rightarrow> nat" where
  \<comment> \<open>the number of bytes of the encoding in \<open>es\<close> that \<open>s\<close> starts with, 0 when there is none\<close>
  "runeWidth es s =
     (case List.find (\<lambda>e. e \<noteq> [] \<and> take (length e) s = e) es of
        None \<Rightarrow> 0
      | Some e \<Rightarrow> length e)"

function skipRunes :: "string list \<Rightarrow> string \<Rightarrow> string" where
  \<comment> \<open>the loop of \<open>indexFunc\<close>: go on while the slice starts with one of the runes\<close>
  "skipRunes es s = (if runeWidth es s = 0 then s else skipRunes es (drop (runeWidth es s) s))"
  by pat_completeness auto
termination
proof (relation "measure (\<lambda>(es, s). length s)")
  fix es :: "string list" and s :: string
  assume "runeWidth es s \<noteq> 0"
  then obtain e where e: "e \<noteq> []" "take (length e) s = e" "runeWidth es s = length e"
    by (auto simp: runeWidth_def find_Some_iff split: option.splits)
  from e(1,2) have "s \<noteq> []"
    by auto
  with e(1,3) show "((es, drop (runeWidth es s) s), (es, s)) \<in> measure (\<lambda>(es, s). length s)"
    by simp
qed simp

declare skipRunes.simps [simp del]

definition TrimLeftSpace :: "string \<Rightarrow> string" where
  \<comment> \<open>\<open>TrimLeftFunc(s, unicode.IsSpace)\<close>\<close>
  "TrimLeftSpace s = skipRunes spaceRunes s"

definition TrimRightSpace :: "string \<Rightarrow> string" where
  \<comment> \<open>\<open>TrimRightFunc(s, unicode.IsSpace)\<close>: the same loop from the end of the slice\<close>
  "TrimRightSpace s = rev (skipRunes (map rev spaceRunes) (rev s))"

definition TrimSpace :: "string \<Rightarrow> string" where
  \<comment> \<open>\<open>bytes.TrimSpace\<close>\<close>
  "TrimSpace bs = TrimRightSpace (TrimLeftSpace bs)"

definition HasSuffix :: "string \<Rightarrow> string \<Rightarrow> bool" where
  \<comment> \<open>\<open>strings.HasSuffix\<close>\<close>
  "HasSuffix s suffix =
     (length suffix \<le> length s \<and> drop (length s - length suffix) s = suffix)"

definition startsWithSpace :: "string \<Rightarrow> bool" where
  "startsWithSpace s = (\<exists>e \<in> set spaceRunes. take (length e) s = e)"

definition endsWithSpace :: "string \<Rightarrow> bool" where
  "endsWithSpace s = (\<exists>e \<in> set spaceRunes. HasSuffix s e)"

section \<open>Regular expressions of the build script\<close>

text \<open>
  Both regular expressions of \<open>build.go\<close> are sequences of character classes with a
  repetition range. \<open>matchHere\<close> is the match of Go's \<open>regexp\<close> package anchored at the
  head of the input: leftmost-first, every repetition greedy, giving back one character
  at a time when the rest of the expression does not match. It returns the number of
  bytes each item consumed.
\<close>

datatype item = Rep "char \<Rightarrow> bool" nat "nat option"

definition Lit :: "char \<Rightarrow> item" where
  "Lit c = Rep (\<lambda>x. x = c) 1 (Some 1)"

definition isDigit :: "char \<Rightarrow> bool" where
  "isDigit c = (c \<in> set ''0123456789'')"

definition isLowerHex :: "char \<Rightarrow> bool" where
  "isLowerHex c = (c \<in> set ''0123456789abcdef'')"

fun firstSome :: "('a \<Rightarrow> 'b option) \<Rightarrow> 'a list \<Rightarrow> 'b option" where
  "firstSome f [] = None"
| "firstSome f (x # xs) = (case f x of Some y \<Rightarrow> Some y | None \<Rightarrow> firstSome f xs)"

definition counts :: "(char \<Rightarrow> bool) \<Rightarrow> nat \<Rightarrow> nat option \<Rightarrow> string \<Rightarrow> nat list" where
  \<comment> \<open>the repetition counts to try, the longest first\<close>
  "counts p lo hi s =
     (let avail = length (takeWhile p s);
          m = (case hi of None \<Rightarrow> avail | Some h \<Rightarrow> min h avail)
      in rev [lo..<Suc m])"

primrec matchHere :: "item list \<Rightarrow> string \<Rightarrow> nat list option" where
  "matchHere [] = (\<lambda>s. Some [])"
| "matchHere (it # its) = (\<lambda>s.
     (case it of Rep p lo hi \<Rightarrow>
        firstSome (\<lambda>n. map_option (Cons n) (matchHere its (drop n s))) (counts p lo hi s)))"

fun findFirst :: "item list \<Rightarrow> string \<Rightarrow> (nat \<times> nat list) option" where
  \<comment> \<open>the leftmost match: its offset and the bytes consumed by each item\<close>
  "findFirst its [] = map_option (Pair 0) (matchHere its [])"
| "findFirst its (c # cs) =
     (case matchHere its (c # cs) of
        Some ns \<Rightarrow> Some (0, ns)
      | None \<Rightarrow> map_option (\<lambda>(i, ns). (Suc i, ns)) (findFirst its cs))"

datatype panic = IndexOutOfRange | SliceBoundsOutOfRange

text \<open>
  \<open>Regexp.ReplaceAllFunc\<close>: the matches are found from left to right without overlap,
  each is handed to \<open>repl\<close> and replaced by what \<open>repl\<close> returns; the bytes between the
  matches are copied. As in the library, an empty match directly after a match is not
  replaced, and the search always advances. A panic of \<open>repl\<close> ends the call.
\<close>

function replaceFrom ::
  "item list \<Rightarrow> (string \<Rightarrow> panic + string) \<Rightarrow> bool \<Rightarrow> string \<Rightarrow> panic + string" where
  "replaceFrom its repl afterMatch [] =
     (case matchHere its [] of
        None \<Rightarrow> Inr []
      | Some ns \<Rightarrow> (if afterMatch then Inr [] else repl []))"
| "replaceFrom its repl afterMatch (c # cs) =
     (case matchHere its (c # cs) of
        None \<Rightarrow> map_sum id (Cons c) (replaceFrom its repl False cs)
      | Some ns \<Rightarrow>
          (if sum_list ns = 0 then
             (case (if afterMatch then Inr [] else repl []) of
                Inl e \<Rightarrow> Inl e
              | Inr r \<Rightarrow> map_sum id (\<lambda>t. r @ c # t) (replaceFrom its repl False cs))
           else
             (case repl (take (sum_list ns) (c # cs)) of
                Inl e \<Rightarrow> Inl e
              | Inr r \<Rightarrow>
                  map_sum id (append r)
                    (replaceFrom its repl True (drop (sum_list ns) (c # cs))))))"
  by pat_completeness auto
termination
  by (relation "measure (\<lambda>(its, repl, a, s). length s)")
     (auto dest: member_le_sum_list)

definition ReplaceAllFunc :: "item list \<Rightarrow> string \<Rightarrow> (string \<Rightarrow> panic + string) \<Rightarrow> panic + string" where
  "ReplaceAllFunc re src repl = replaceFrom re repl False src"

section \<open>Version resolution\<close>

definition versionRe :: "item list" where
  \<comment> \<open>\<open>-[0-9]{1,3}-g[0-9a-f]{5,10}\<close>\<close>
  "versionRe =
     [Lit CHR ''-'', Rep isDigit 1 (Some 3), Lit CHR ''-'', Lit CHR ''g'',
      Rep isLowerHex 5 (Some 10)]"

datatype ioError = NotExist | ReadError | ExitStatus

text \<open>
  What version resolution reads from outside: the \<open>RELEASE\<close> file (its content, or the
  error of opening or reading it) and the outcome of \<open>git describe --always --dirty\<close>
  (the combined output, or the error of running it).
\<close>

record versionSources =
  releaseFile :: "ioError + string"
  gitDescribe :: "ioError + string"

definition getReleaseVersion :: "versionSources \<Rightarrow> ioError + string" where
  "getReleaseVersion w =
     (case releaseFile w of Inl e \<Rightarrow> Inl e | Inr bs \<Rightarrow> Inr (TrimSpace bs))"

definition runError :: "ioError + string \<Rightarrow> ioError + string" where
  \<comment> \<open>the output of the command, trimmed, when it ran and exited with status 0\<close>
  "runError outcome = (case outcome of Inl e \<Rightarrow> Inl e | Inr bs \<Rightarrow> Inr (TrimSpace bs))"

definition plusFirst :: "string \<Rightarrow> panic + string" where
  \<comment> \<open>the function literal \<open>s[0] = '+'; return s\<close>; the slice \<open>s\<close> shares its bytes with
      the source, at a place the search has already passed\<close>
  "plusFirst s = (case s of [] \<Rightarrow> Inl IndexOutOfRange | c # cs \<Rightarrow> Inr (CHR ''+'' # cs))"

datatype 'a outcome = Returns 'a | Panics panic

definition getGitVersion :: "versionSources \<Rightarrow> (ioError + string) outcome" where
  "getGitVersion w =
     (case runError (gitDescribe w) of
        Inl e \<Rightarrow> Returns (Inl e)
      | Inr v \<Rightarrow>
          (case ReplaceAllFunc versionRe v plusFirst of
             Inl p \<Rightarrow> Panics p
           | Inr v' \<Rightarrow> Returns (Inr v')))"

definition getVersion :: "versionSources \<Rightarrow> string outcome" where
  "getVersion w =
     (case getReleaseVersion w of
        Inr ver \<Rightarrow> Returns ver
      | Inl _ \<Rightarrow>
          (case getGitVersion w of
             Panics p \<Rightarrow> Panics p
           | Returns (Inr ver) \<Rightarrow> Returns ver
           | Returns (Inl _) \<Rightarrow> Returns ''unknown-dev''))"

text \<open>
  The normalisation in the words of the specification: a describe suffix is a hyphen,
  one to three decimal digits, a hyphen, the letter g and five to ten lower-case
  hexadecimal digits; the hyphen that starts such a suffix becomes a plus sign and every
  other byte stays. \<open>suffixForm t\<close> says that \<open>t\<close> starts with a suffix of this form.
\<close>

definition suffixForm :: "string \<Rightarrow> bool" where
  "suffixForm t =
     (\<exists>d \<in> set [1..<4]. \<exists>h \<in> set [5..<11].
        take 1 t = ''-'' \<and>
        length (take d (drop 1 t)) = d \<and> list_all isDigit (take d (drop 1 t)) \<and>
        take 2 (drop (1 + d) t) = ''-g'' \<and>
        length (take h (drop (3 + d) t)) = h \<and> list_all isLowerHex (take h (drop (3 + d) t)))"

fun specNormalise :: "string \<Rightarrow> string" where
  "specNormalise [] = []"
| "specNormalise (c # cs) = (if suffixForm (c # cs) then CHR ''+'' else c) # specNormalise cs"


section \<open>Files and the failures of input and output\<close>

text \<open>
  A file has its bytes, its \<open>os.FileMode\<close> (a \<open>uint32\<close>) and its modification time.
  The file system maps a path to the file stored there. Every call of the operating
  system or of an archive writer that returns an error in the source is an
  \<open>operation\<close>; the index is the position of the manifest entry it works on. The world
  says which operations fail; it also fixes the listing of the directories that
  \<open>listFiles\<close> walks, the mode bits and the time a created file gets, and how many
  bytes a failing \<open>Write\<close> takes before it fails.
\<close>

record osFile =
  content :: string
  mode :: "32 word"
  modTime :: int

datatype operation =
    Compile | Create | Open nat | Stat nat | InfoHeader nat | ReadAll nat
  | WriteHeader nat | CreateHeader nat | Copy nat | Write nat
  | CloseTar | CloseGzip | CloseZip | CloseFile
  | Md5Open | Md5Read | Md5Create | Md5Write | Md5Close

record world =
  files :: "string \<rightharpoonup> osFile"
  fails :: "operation \<Rightarrow> bool"
  listing :: "string \<Rightarrow> string list"
  createMode :: "32 word"
  now :: int
  accepted :: "nat \<Rightarrow> nat"

text \<open>\<open>log.Fatal\<close> ends the process with exit status 1: \<open>Inl\<close> of the operation that failed.\<close>

type_synonym 'a run = "operation + 'a"

record archiveFile =
  src :: string
  dst :: string
  perm :: "32 word"

definition openFile :: "world \<Rightarrow> operation \<Rightarrow> string \<Rightarrow> osFile run" where
  \<comment> \<open>\<open>os.Open\<close>: fails when nothing is stored at the path, or when the world says so\<close>
  "openFile w op path =
     (case files w path of
        None \<Rightarrow> Inl op
      | Some f \<Rightarrow> if fails w op then Inl op else Inr f)"

section \<open>The tar archive\<close>

record tarHeader =
  Name :: string
  Size :: int
  Mode :: int
  ModTime :: int

type_synonym tarEntry = "tarHeader \<times> string"

text \<open>
  The loop of \<open>tarGz\<close> over the manifest, from entry \<open>i\<close> on; \<open>tw\<close> is what the tar
  writer holds so far. \<open>info.Size()\<close> is the number of bytes of the file and
  \<open>int64(info.Mode())\<close> the unsigned value of its mode. The error of \<open>sf.Close()\<close> is
  not looked at.
\<close>

fun tarGzLoop :: "world \<Rightarrow> nat \<Rightarrow> archiveFile list \<Rightarrow> tarEntry list \<Rightarrow> tarEntry list run" where
  "tarGzLoop w i [] tw = Inr tw"
| "tarGzLoop w i (f # fs) tw =
     (case openFile w (Open i) (src f) of
        Inl e \<Rightarrow> Inl e
      | Inr sf \<Rightarrow>
          if fails w (Stat i) then Inl (Stat i)
          else
            let h = \<lparr>Name = dst f, Size = int (length (content sf)),
                     Mode = uint (mode sf), ModTime = modTime sf\<rparr>
            in if fails w (WriteHeader i) then Inl (WriteHeader i)
               else if fails w (Copy i) then Inl (Copy i)
               else tarGzLoop w (Suc i) fs (tw @ [(h, content sf)]))"

definition tarGz :: "world \<Rightarrow> string \<Rightarrow> archiveFile list \<Rightarrow> tarEntry list run" where
  "tarGz w out fs =
     (if fails w Create then Inl Create
      else
        (case tarGzLoop w 0 fs [] of
           Inl e \<Rightarrow> Inl e
         | Inr tw \<Rightarrow>
             if fails w CloseTar then Inl CloseTar
             else if fails w CloseGzip then Inl CloseGzip
             else if fails w CloseFile then Inl CloseFile
             else Inr tw))"

section \<open>The manifest of the tar archive\<close>

definition Base :: "string \<Rightarrow> string" where
  \<comment> \<open>\<open>filepath.Base\<close> with the separator \<open>/\<close>\<close>
  "Base path =
     (if path = [] then ''.''
      else
        let p = rev (dropWhile (\<lambda>c. c = CHR ''/'') (rev path));
            e = rev (takeWhile (\<lambda>c. c \<noteq> CHR ''/'') (rev p))
        in if e = [] then ''/'' else e)"

record config =
  goarch :: string
  goos :: string
  noupgrade :: bool
  version :: string

definition buildArch :: "config \<Rightarrow> string" where
  "buildArch c = (if goos c = ''darwin'' then ''macosx'' else goos c) @ ''-'' @ goarch c"

definition archiveName :: "config \<Rightarrow> string" where
  "archiveName c = ''syncthing-'' @ buildArch c @ ''-'' @ version c"

definition listFiles :: "world \<Rightarrow> string \<Rightarrow> string list" where
  \<comment> \<open>the regular files below the directory, in the order \<open>filepath.Walk\<close> visits them\<close>
  "listFiles w dir = listing w dir"

definition tarManifest :: "world \<Rightarrow> string \<Rightarrow> archiveFile list" where
  \<comment> \<open>the slice \<open>files\<close> of \<open>buildTar\<close>; the literals leave \<open>perm\<close> at its zero value\<close>
  "tarManifest w name =
     [\<lparr>src = ''README.md'', dst = name @ ''/README.txt'', perm = 0\<rparr>,
      \<lparr>src = ''LICENSE'', dst = name @ ''/LICENSE.txt'', perm = 0\<rparr>,
      \<lparr>src = ''AUTHORS'', dst = name @ ''/AUTHORS.txt'', perm = 0\<rparr>,
      \<lparr>src = ''syncthing'', dst = name @ ''/syncthing'', perm = 0\<rparr>,
      \<lparr>src = ''syncthing.md5'', dst = name @ ''/syncthing.md5'', perm = 0\<rparr>]
     @ map (\<lambda>p. \<lparr>src = p, dst = name @ ''/'' @ p, perm = 0\<rparr>) (listFiles w ''etc'')
     @ map (\<lambda>p. \<lparr>src = p, dst = name @ ''/'' @ Base p, perm = 0\<rparr>)
         (listFiles w ''extra'')"

definition tarName :: "config \<Rightarrow> string" where
  \<comment> \<open>the variable \<open>name\<close> of \<open>buildTar\<close>\<close>
  "tarName c = (if noupgrade c then archiveName c @ ''-noupgrade'' else archiveName c)"

definition buildTar :: "config \<Rightarrow> world \<Rightarrow> tarEntry list run" where
  \<comment> \<open>\<open>build\<close> runs the compiler and writes the checksum; its failure is fatal\<close>
  "buildTar c w =
     (let name = tarName c
      in if fails w Compile then Inl Compile
         else tarGz w (name @ ''.tar.gz'') (tarManifest w name))"

section \<open>The zip archive\<close>

function Replace :: "string \<Rightarrow> string \<Rightarrow> string \<Rightarrow> string" where
  \<comment> \<open>\<open>bytes.Replace\<close> and \<open>strings.Replace\<close> with \<open>n = -1\<close>: every occurrence of \<open>old\<close>,
      from left to right without overlap; an empty \<open>old\<close> matches before every byte and
      at the end\<close>
  "Replace [] old new = (if old = [] then new else [])"
| "Replace (c # cs) old new =
     (if old = [] then new @ c # Replace cs old new
      else if take (length old) (c # cs) = old
      then new @ Replace (drop (length old) (c # cs)) old new
      else c # Replace cs old new)"
  by pat_completeness auto
termination
  by (relation "measure (\<lambda>(s, old, new). length s)") (auto simp: Suc_le_eq)

datatype zipMethod = Store | Deflate

record zipHeader =
  zipName :: string
  Method :: zipMethod
  UncompressedSize :: "32 word"
  UncompressedSize64 :: "64 word"
  Modified :: int
  FileMode :: "32 word"

type_synonym zipEntry = "zipHeader \<times> string"


definition FileInfoHeader :: "string \<Rightarrow> osFile \<Rightarrow> zipHeader" where
  \<comment> \<open>\<open>zip.FileInfoHeader\<close>: the base name, the size in both fields (the 32-bit field
      saturated), the time and the mode of the file\<close>
  "FileInfoHeader path f =
     \<lparr>zipName = Base path, Method = Store,
      UncompressedSize =
        (if length (content f) > 4294967295 then 4294967295 else of_nat (length (content f))),
      UncompressedSize64 = of_nat (length (content f)),
      Modified = modTime f, FileMode = mode f\<rparr>"

text \<open>
  The writer of \<open>archive/zip\<close> sends the bytes of an entry through the compressor of
  \<open>compress/flate\<close> into a writer of \<open>bufio\<close>. Both keep the first error of a write:
  from then on every write, and the close of the entry, returns it. The close of the
  entry is the first thing that \<open>zw.CreateHeader\<close> does for the next entry, and that
  \<open>zw.Close\<close> does, so the call that follows a failed write on the writer returns the
  error that was kept.
\<close>

definition zipCreateHeader :: "world \<Rightarrow> nat \<Rightarrow> operation option \<Rightarrow> operation option" where
  \<comment> \<open>the error of \<open>zw.CreateHeader\<close> for entry \<open>i\<close>, when \<open>kept\<close> is the error the writer holds\<close>
  "zipCreateHeader w i kept =
     (case kept of
        Some e \<Rightarrow> Some e
      | None \<Rightarrow> if fails w (CreateHeader i) then Some (CreateHeader i) else None)"

text \<open>
  The loop of \<open>zipFile\<close>. In the branch of the text files the result of \<open>of.Write(bs)\<close>
  is dropped: when that write fails, the loop goes on with the next entry, and the writer
  holds the error.
\<close>

fun zipLoop ::
  "world \<Rightarrow> nat \<Rightarrow> archiveFile list \<Rightarrow> zipEntry list \<Rightarrow> operation option \<Rightarrow>
   (zipEntry list \<times> operation option) run" where
  "zipLoop w i [] zw kept = Inr (zw, kept)"
| "zipLoop w i (f # fs) zw kept =
     (case openFile w (Open i) (src f) of
        Inl e \<Rightarrow> Inl e
      | Inr sf \<Rightarrow>
          if fails w (Stat i) then Inl (Stat i)
          else if fails w (InfoHeader i) then Inl (InfoHeader i)
          else
            let fh = (FileInfoHeader (src f) sf)\<lparr>zipName := dst f, Method := Deflate\<rparr>
            in if HasSuffix (dst f) ''.txt'' then
                 if fails w (ReadAll i) then Inl (ReadAll i)
                 else
                   let bs = Replace (content sf) [LF] [LF, CR];
                       fh' = fh\<lparr>UncompressedSize := of_nat (length bs),
                                 UncompressedSize64 := of_nat (length bs)\<rparr>
                   in case zipCreateHeader w i kept of
                        Some e \<Rightarrow> Inl e
                      | None \<Rightarrow>
                          if fails w (Write i)
                          then zipLoop w (Suc i) fs (zw @ [(fh', take (accepted w i) bs)])
                                 (Some (Write i))
                          else zipLoop w (Suc i) fs (zw @ [(fh', bs)]) None
               else
                 case zipCreateHeader w i kept of
                   Some e \<Rightarrow> Inl e
                 | None \<Rightarrow>
                     if fails w (Copy i) then Inl (Copy i)
                     else zipLoop w (Suc i) fs (zw @ [(fh, content sf)]) None)"

definition zipFile :: "world \<Rightarrow> string \<Rightarrow> archiveFile list \<Rightarrow> zipEntry list run" where
  "zipFile w out fs =
     (if fails w Create then Inl Create
      else
        (case zipLoop w 0 fs [] None of
           Inl e \<Rightarrow> Inl e
         | Inr (zw, kept) \<Rightarrow>
             (case kept of
                Some e \<Rightarrow> Inl e
              | None \<Rightarrow>
                  if fails w CloseZip then Inl CloseZip
                  else if fails w CloseFile then Inl CloseFile
                  else Inr zw)))"

text \<open>
  The conversion of the line ends in the words of the specification: a carriage return
  goes before every line feed that does not already follow one.
\<close>

fun specCRLFafter :: "bool \<Rightarrow> string \<Rightarrow> string" where
  \<comment> \<open>the flag says that the byte before was a carriage return\<close>
  "specCRLFafter afterCR [] = []"
| "specCRLFafter afterCR (c # cs) =
     (if c = LF \<and> \<not> afterCR then CR # LF # specCRLFafter False cs
      else c # specCRLFafter (c = CR) cs)"

definition specCRLF :: "string \<Rightarrow> string" where
  "specCRLF s = specCRLFafter False s"

section \<open>The checksum file\<close>

definition hexDigit :: "nat \<Rightarrow> char" where
  "hexDigit n = ''0123456789abcdef'' ! (n mod 16)"

definition hexOf :: "string \<Rightarrow> string" where
  \<comment> \<open>the verb \<open>%x\<close> on a byte slice: two lower-case hexadecimal digits for every byte\<close>
  "hexOf bs = concat (map (\<lambda>c. [hexDigit (of_char c div 16), hexDigit (of_char c)]) bs)"

definition createFile :: "world \<Rightarrow> (string \<rightharpoonup> osFile) \<Rightarrow> string \<Rightarrow> (string \<rightharpoonup> osFile)" where
  \<comment> \<open>\<open>os.Create\<close>: a new empty file, or the old file cut to length 0\<close>
  "createFile w fs path =
     fs(path \<mapsto>
        (case fs path of
           None \<Rightarrow> \<lparr>content = [], mode = createMode w, modTime = now w\<rparr>
         | Some f \<Rightarrow> f\<lparr>content := [], modTime := now w\<rparr>))"

definition writeFile :: "(string \<rightharpoonup> osFile) \<Rightarrow> string \<Rightarrow> string \<Rightarrow> (string \<rightharpoonup> osFile)" where
  "writeFile fs path bs =
     (case fs path of None \<Rightarrow> fs | Some f \<Rightarrow> fs(path \<mapsto> f\<lparr>content := content f @ bs\<rparr>))"

text \<open>
  \<open>md5File\<close> returns the error, if any, and leaves the file system changed. The digest
  function \<open>md5\<close> of the library is a parameter: it maps the bytes read to the bytes of
  the sum.
\<close>

definition md5File ::
  "(string \<Rightarrow> string) \<Rightarrow> world \<Rightarrow> string \<Rightarrow> operation option \<times> (string \<rightharpoonup> osFile)" where
  "md5File md5 w path =
     (case openFile w Md5Open path of
        Inl e \<Rightarrow> (Some e, files w)
      | Inr fd \<Rightarrow>
          if fails w Md5Read then (Some Md5Read, files w)
          else if fails w Md5Create then (Some Md5Create, files w)
          else
            let fs1 = createFile w (files w) (path @ ''.md5'')
            in if fails w Md5Write then (Some Md5Write, fs1)
               else
                 let fs2 = writeFile fs1 (path @ ''.md5'') (hexOf (md5 (content fd)) @ [LF])
                 in if fails w Md5Close then (Some Md5Close, fs2) else (None, fs2))"

section \<open>The control files of the Debian package\<close>

abbreviation TAB :: char where "TAB \<equiv> CHR 0x09"

definition controlTemplate :: string where
  "controlTemplate =
     ''Package: syncthing'' @ [LF] @
     ''Architecture: {{arch}}'' @ [LF] @
     ''Depends: libc6'' @ [LF] @
     ''Version: {{version}}'' @ [LF] @
     ''Maintainer: Syncthing Release Management <release@syncthing.net>'' @ [LF] @
     ''Description: Open Source Continuous File Synchronization'' @ [LF] @
     [TAB] @ ''Syncthing does bidirectional synchronization of files between two or'' @ [LF] @
     [TAB] @ ''more computers.'' @ [LF]"

definition changelogTemplate :: string where
  "changelogTemplate =
     ''syncthing ({{version}}); urgency=medium'' @ [LF] @
     [LF] @
     ''  * Packaging of {{version}}.'' @ [LF] @
     [LF] @
     '' -- Jakob Borg <jakob@nym.se>  {{date}}'' @ [LF]"

definition debArch :: "config \<Rightarrow> string" where
  "debArch c = (if goarch c = ''386'' then ''i386'' else goarch c)"

definition sliceFrom1 :: "string \<Rightarrow> panic + string" where
  \<comment> \<open>the slice expression \<open>version[1:]\<close>, which panics on the empty string\<close>
  "sliceFrom1 s = (case s of [] \<Rightarrow> Inl SliceBoundsOutOfRange | c # cs \<Rightarrow> Inr cs)"

text \<open>
  The templating of \<open>buildDeb\<close>: the pair of the control file and the changelog. The
  date is \<open>time.Now().Format(time.RFC1123)\<close>, given as a string.
\<close>

definition debControlFiles :: "config \<Rightarrow> string \<Rightarrow> panic + (string \<times> string)" where
  "debControlFiles c date =
     (let debarch = debArch c;
          control = Replace controlTemplate ''{{arch}}'' debarch
      in case sliceFrom1 (version c) of
           Inl p \<Rightarrow> Inl p
         | Inr v1 \<Rightarrow>
             let control = Replace control ''{{version}}'' v1;
                 changelog = Replace changelogTemplate ''{{arch}}'' debarch;
                 changelog = Replace changelog ''{{version}}'' v1;
                 changelog = Replace changelog ''{{date}}'' date
             in Inr (control, changelog))"

text \<open>
  The specification's reading of the version field: a leading format marker, the letter
  v of a tag such as v1.2.3, is stripped when there is one.
\<close>

definition specStripMarker :: "string \<Rightarrow> string" where
  "specStripMarker v = (if take 1 v = ''v'' then drop 1 v else v)"

section \<open>The check of the version of the Go tools\<close>

text \<open>
  A \<open>float64\<close> that is not an infinity or a NaN is a rational number. \<open>round64\<close> rounds
  a non-negative rational to the nearest \<open>float64\<close>, ties to the even significand, as
  \<open>strconv.ParseFloat\<close> and the conversion of the constant \<open>1.3\<close> do; \<open>ilog2 x\<close> is the
  binary exponent of \<open>x\<close>, the largest \<open>e\<close> with \<open>2 ^ e \<le> x\<close>.
\<close>

fun bitlen :: "nat \<Rightarrow> nat" where
  "bitlen n = (if n = 0 then 0 else Suc (bitlen (n div 2)))"

declare bitlen.simps [simp del]

definition pow2 :: "int \<Rightarrow> rat" where
  "pow2 k = (if 0 \<le> k then 2 ^ nat k else 1 / 2 ^ nat (- k))"

definition ilog2 :: "rat \<Rightarrow> int" where
  "ilog2 x =
     (if 1 \<le> x then int (bitlen (nat \<lfloor>x\<rfloor>)) - 1
      else - int (bitlen (nat (\<lceil>1 / x\<rceil> - 1))))"

definition roundHalfEven :: "rat \<Rightarrow> int" where
  "roundHalfEven x =
     (let n = \<lfloor>x\<rfloor>; r = x - of_int n
      in if r < 1 / 2 then n else if 1 / 2 < r then n + 1 else if even n then n else n + 1)"

definition round64 :: "rat \<Rightarrow> rat" where
  "round64 x =
     (if x \<le> 0 then 0
      else let e = max (ilog2 x) (- 1022); q = pow2 (e - 52)
           in of_int (roundHalfEven (x / q)) * q)"

definition digitsValue :: "string \<Rightarrow> int" where
  "digitsValue ds = foldl (\<lambda>acc d. 10 * acc + (of_char d - 48)) 0 ds"

datatype numError = ErrSyntax | ErrRange

definition decimalValue :: "string \<Rightarrow> rat" where
  \<comment> \<open>the number that the digits before and after the point denote\<close>
  "decimalValue s =
     (let ip = takeWhile isDigit s; fp = drop 1 (dropWhile isDigit s)
      in of_int (digitsValue ip) + of_int (digitsValue fp) / 10 ^ length fp)"

definition ParseFloat :: "string \<Rightarrow> numError + rat" where
  \<comment> \<open>\<open>strconv.ParseFloat(s, 64)\<close> on the strings of the form digits, point, digits, the
      only ones the check passes to it; the other notations of Go are not modelled\<close>
  "ParseFloat s =
     (let ip = takeWhile isDigit s; rest = dropWhile isDigit s
      in if ip = [] \<or> take 1 rest \<noteq> ''.'' \<or> drop 1 rest = [] \<or> \<not> list_all isDigit (drop 1 rest)
         then Inl ErrSyntax
         else
           let f = round64 (decimalValue s)
           in if pow2 1024 \<le> f then Inl ErrRange else Inr f)"

definition minGoVersion :: rat where
  \<comment> \<open>\<open>const minGoVersion = 1.3\<close>, compared as a \<open>float64\<close>\<close>
  "minGoVersion = round64 (13 / 10)"

definition goVersionRe :: "item list" where
  \<comment> \<open>\<open>go version go(\d+\.\d+)\<close>; the group is the items 13, 14 and 15\<close>
  "goVersionRe =
     map Lit ''go version go'' @ [Rep isDigit 1 None, Lit CHR ''.'', Rep isDigit 1 None]"

definition FindSubmatch :: "item list \<Rightarrow> nat \<Rightarrow> nat \<Rightarrow> string \<Rightarrow> string list" where
  \<comment> \<open>\<open>Regexp.FindSubmatch\<close> for an expression with one group, the items from \<open>a\<close> up
      to \<open>b\<close>: empty without a match, else the match and the text of the group\<close>
  "FindSubmatch re a b s =
     (case findFirst re s of
        None \<Rightarrow> []
      | Some (i, ns) \<Rightarrow>
          [take (sum_list ns) (drop i s),
           take (sum_list (take (b - a) (drop a ns))) (drop (i + sum_list (take a ns)) s)])"

datatype logLine = UnknownGoVersion string | CouldNotParse string

datatype verdict = Proceeds "logLine list" | FatalTooOld rat | FatalRun

definition run :: "ioError + string \<Rightarrow> verdict + string" where
  \<comment> \<open>\<open>run\<close>: fatal when \<open>runError\<close> gives an error, else its output, trimmed again\<close>
  "run outcome =
     (case runError outcome of Inl e \<Rightarrow> Inl FatalRun | Inr bs \<Rightarrow> Inr (TrimSpace bs))"

definition checkRequiredGoVersion :: "ioError + string \<Rightarrow> verdict" where
  "checkRequiredGoVersion goVersion =
     (case run goVersion of
        Inl g \<Rightarrow> g
      | Inr ver \<Rightarrow>
          (let m = FindSubmatch goVersionRe 13 16 ver
           in if length m = 2 then
                (let vs = m ! 1
                 in case ParseFloat vs of
                      Inl err \<Rightarrow> Proceeds [CouldNotParse vs]
                    | Inr f \<Rightarrow> if f < minGoVersion then FatalTooOld f else Proceeds [])
              else Proceeds [UnknownGoVersion ver]))"

text \<open>
  The order of versions in the words of the specification: a version \<open>major.minor\<close> is
  at or above another when its major number is greater, or the major numbers are equal
  and its minor number is at least the other minor number.
\<close>

definition specAtLeast :: "nat \<times> nat \<Rightarrow> nat \<times> nat \<Rightarrow> bool" where
  "specAtLeast v m = (fst m < fst v \<or> (fst v = fst m \<and> snd m \<le> snd v))"

section \<open>Auxiliary notions of the statements\<close>

text \<open>The entry that \<open>tarGz\<close> writes for a manifest entry whose source file is \<open>sf\<close>.\<close>

definition tarEntryOf :: "archiveFile \<Rightarrow> osFile \<Rightarrow> tarEntry" where
  "tarEntryOf f sf =
     (\<lparr>Name = dst f, Size = int (length (content sf)), Mode = uint (mode sf),
       ModTime = modTime sf\<rparr>, content sf)"


text \<open>A small checkout, used to run the functions on concrete input.\<close>

definition exampleFiles :: "string \<rightharpoonup> osFile" where
  "exampleFiles =
     [''README.md'' \<mapsto> \<lparr>content = ''a'' @ [LF] @ ''b'' @ [LF], mode = 420, modTime = 10\<rparr>,
      ''LICENSE'' \<mapsto> \<lparr>content = ''MPL'', mode = 420, modTime = 11\<rparr>,
      ''AUTHORS'' \<mapsto> \<lparr>content = ''jb'', mode = 420, modTime = 12\<rparr>,
      ''syncthing'' \<mapsto> \<lparr>content = ''ELF'', mode = 493, modTime = 13\<rparr>,
      ''syncthing.md5'' \<mapsto> \<lparr>content = ''00'' @ [LF], mode = 420, modTime = 14\<rparr>,
      ''extra/README.txt'' \<mapsto> \<lparr>content = ''c'' @ [LF], mode = 420, modTime = 15\<rparr>,
      ''NOTES'' \<mapsto> \<lparr>content = ''a'' @ [CR, LF], mode = 420, modTime = 16\<rparr>]"

definition exampleWorld :: world where
  "exampleWorld =
     \<lparr>files = exampleFiles, fails = (\<lambda>op. False),
      listing = (\<lambda>dir. if dir = ''extra'' then [''extra/README.txt''] else []),
      createMode = 420, now = 20, accepted = (\<lambda>i. 0)\<rparr>"

definition exampleConfig :: config where
  "exampleConfig =
     \<lparr>goarch = ''amd64'', goos = ''linux'', noupgrade = False, version = ''v1.2.3''\<rparr>"

text \<open>
  The entry that \<open>zipFile\<close> writes for a manifest entry whose source file is \<open>sf\<close>, when
  nothing fails.
\<close>

definition zipEntryOf :: "archiveFile \<Rightarrow> osFile \<Rightarrow> zipEntry" where
  "zipEntryOf f sf =
     (let fh = (FileInfoHeader (src f) sf)\<lparr>zipName := dst f, Method := Deflate\<rparr>;
          bs = Replace (content sf) [LF] [LF, CR]
      in if HasSuffix (dst f) ''.txt''
         then (fh\<lparr>UncompressedSize := of_nat (length bs), UncompressedSize64 := of_nat (length bs)\<rparr>,
               bs)
         else (fh, content sf))"

text \<open>
  The operations that a run of \<open>tarGz\<close> and a run of \<open>zipFile\<close> perform on the output
  file, on the archive streams and on the entries of a manifest.
\<close>

definition tarGzOps :: "nat \<Rightarrow> operation set" where
  "tarGzOps n =
     {Create, CloseTar, CloseGzip, CloseFile} \<union>
     (\<Union>i\<in>{..<n}. {Open i, Stat i, WriteHeader i, Copy i})"

definition zipFileOps :: "archiveFile list \<Rightarrow> operation set" where
  "zipFileOps fs =
     {Create, CloseZip, CloseFile} \<union>
     (\<Union>i\<in>{..<length fs}.
        {Open i, Stat i, InfoHeader i, CreateHeader i} \<union>
        (if HasSuffix (dst (fs ! i)) ''.txt'' then {ReadAll i, Write i} else {Copy i}))"
section \<open>The regular expression of the describe suffix\<close>

lemma firstSome_None: "(\<And>x. x \<in> set xs \<Longrightarrow> f x = None) \<Longrightarrow> firstSome f xs = None"
  by (induction xs) auto

lemma firstSome_rev_upt_last:
  assumes "\<And>n. lo \<le> n \<Longrightarrow> n < m \<Longrightarrow> f n = None"
  shows "firstSome f (rev [lo..<Suc m]) = (if lo \<le> m then f m else None)"
proof (cases "lo \<le> m")
  case True
  then have "rev [lo..<Suc m] = m # rev [lo..<m]" by simp
  moreover have "firstSome f (rev [lo..<m]) = None"
    by (rule firstSome_None) (use assms in auto)
  ultimately show ?thesis using True by (simp split: option.splits)
next
  case False
  then show ?thesis by simp
qed

lemma matchHere_Lit:
  "matchHere (Lit c # its) s =
     (case s of [] \<Rightarrow> None
      | x # xs \<Rightarrow> if x = c then map_option (Cons 1) (matchHere its xs) else None)"
  by (cases s) (auto simp: Lit_def counts_def split: option.splits)

lemma matchHere_last:
  "matchHere [Rep p lo (Some hi)] s =
     (let m = min hi (length (takeWhile p s)) in if lo \<le> m then Some [m] else None)"
proof -
  have "firstSome (\<lambda>n. Some [n]) (rev [lo..<Suc m]) = (if lo \<le> m then Some [m] else None)" for m
    by (cases "lo \<le> m") auto
  then show ?thesis by (simp add: counts_def Let_def)
qed

lemma takeWhile_nth_holds: "n < length (takeWhile p s) \<Longrightarrow> p (s ! n)"
  by (metis nth_mem set_takeWhileD takeWhile_nth)

lemma matchHere_Rep_then_Lit:
  assumes "\<not> p c"
  shows "matchHere (Rep p lo (Some hi) # Lit c # its) s =
     (let k = length (takeWhile p s) in
      if lo \<le> k \<and> k \<le> hi then map_option (Cons k) (matchHere (Lit c # its) (drop k s))
      else None)"
proof -
  let ?k = "length (takeWhile p s)"
  let ?f = "\<lambda>n. map_option (Cons n) (matchHere (Lit c # its) (drop n s))"
  have fail: "?f n = None" if "n < ?k" for n
  proof -
    from that have "n < length s" using length_takeWhile_le [of p s] by simp
    then have "drop n s = s ! n # drop (Suc n) s" by (simp add: Cons_nth_drop_Suc)
    moreover have "p (s ! n)" using that by (rule takeWhile_nth_holds)
    ultimately show ?thesis using assms by (auto simp add: matchHere_Lit simp del: matchHere.simps)
  qed
  have "matchHere (Rep p lo (Some hi) # Lit c # its) s = firstSome ?f (rev [lo..<Suc (min hi ?k)])"
    by (simp add: counts_def Let_def)
  also have "\<dots> = (if lo \<le> min hi ?k then ?f (min hi ?k) else None)"
    by (rule firstSome_rev_upt_last) (use fail in auto)
  also have "\<dots> = (if lo \<le> ?k \<and> ?k \<le> hi then ?f ?k else None)"
    using fail [of hi] by (auto simp: min_def)
  finally show ?thesis by (simp add: Let_def)
qed

lemma matchHere_versionRe:
  "matchHere versionRe s =
     (case s of
        [] \<Rightarrow> None
      | x # s1 \<Rightarrow>
          if x \<noteq> CHR ''-'' then None
          else let k = length (takeWhile isDigit s1) in
            if \<not> (1 \<le> k \<and> k \<le> 3) then None
            else if take 2 (drop k s1) \<noteq> ''-g'' then None
            else let h = min 10 (length (takeWhile isLowerHex (drop 2 (drop k s1)))) in
              if 5 \<le> h then Some [1, k, 1, 1, h] else None)"
proof -
  have nd: "\<not> isDigit CHR ''-''" by (simp add: isDigit_def)
  show ?thesis
    unfolding versionRe_def
    apply (simp only: matchHere_Lit matchHere_Rep_then_Lit [of isDigit "CHR ''-''", OF nd] matchHere_last)
    apply (auto simp: Let_def simp del: drop_drop split: list.splits)
    done
qed

lemma digit_not_hyphen: "isDigit c \<Longrightarrow> c \<noteq> CHR ''-''"
  by (auto simp: isDigit_def)

lemma hex_not_hyphen: "isLowerHex c \<Longrightarrow> c \<noteq> CHR ''-''"
  by (auto simp: isLowerHex_def)

lemma g_not_digit: "\<not> isDigit CHR ''g''"
  by (simp add: isDigit_def)

lemma suffixForm_head:
  assumes "suffixForm (c # cs)"
  shows "c = CHR ''-'' \<and> (\<exists>y z. cs = y # z \<and> isDigit y)"
proof -
  from assms obtain d where d: "1 \<le> d" "length (take d cs) = d" "list_all isDigit (take d cs)"
    and c: "c = CHR ''-''"
    by (auto simp: suffixForm_def)
  from d obtain y z where "cs = y # z" by (cases cs) auto
  with d show ?thesis using c by (cases d) auto
qed

lemma specNormalise_skip:
  "list_all (\<lambda>c. c \<noteq> CHR ''-'') xs \<Longrightarrow> specNormalise (xs @ ys) = xs @ specNormalise ys"
  by (induction xs) (auto dest: suffixForm_head)

lemma specNormalise_hyphen_g: "specNormalise (CHR ''-'' # CHR ''g'' # ys) = CHR ''-'' # specNormalise (CHR ''g'' # ys)"
  using suffixForm_head [of "CHR ''-''" "CHR ''g'' # ys"] by (auto simp: g_not_digit)

lemma take_takeWhile_le:
  "n \<le> length (takeWhile p xs) \<Longrightarrow> take n (takeWhile p xs) = take n xs"
  by (subst takeWhile_eq_take) (simp add: min_def)

lemma versionRe_shape:
  assumes "matchHere versionRe s = Some ns"
  shows "\<exists>ds hs rest. s = CHR ''-'' # ds @ CHR ''-'' # CHR ''g'' # hs @ rest \<and>
           list_all isDigit ds \<and> 1 \<le> length ds \<and> length ds \<le> 3 \<and>
           list_all isLowerHex hs \<and> 5 \<le> length hs \<and> length hs \<le> 10 \<and>
           sum_list ns = 3 + length ds + length hs"
proof -
  from assms obtain s1 where s: "s = CHR ''-'' # s1"
    by (auto simp: matchHere_versionRe split: list.splits if_splits)
  define ds where "ds = takeWhile isDigit s1"
  define t where "t = drop (length ds) s1"
  define h where "h = min 10 (length (takeWhile isLowerHex (drop 2 t)))"
  from assms s have k: "1 \<le> length ds" "length ds \<le> 3" and t2: "take 2 t = ''-g''"
    and h: "5 \<le> h" and ns: "ns = [1, length ds, 1, 1, h]"
    by (auto simp: matchHere_versionRe ds_def t_def h_def Let_def split: if_splits)
  have s1: "s1 = ds @ t"
    unfolding t_def ds_def by (metis append_take_drop_id takeWhile_eq_take)
  from t2 have t: "t = CHR ''-'' # CHR ''g'' # drop 2 t"
    by (metis append_take_drop_id append_Cons append_Nil)
  define hs where "hs = take h (drop 2 t)"
  have hs_len: "length hs = h"
    unfolding hs_def h_def using length_takeWhile_le [of isLowerHex "drop 2 t"] by simp
  have "hs = take h (takeWhile isLowerHex (drop 2 t))"
    unfolding hs_def h_def by (simp add: take_takeWhile_le)
  then have hs_hex: "list_all isLowerHex hs"
    by (metis in_set_takeD list_all_iff set_takeWhileD)
  have "drop 2 t = hs @ drop h (drop 2 t)"
    unfolding hs_def by (simp del: drop_drop)
  with t have "t = CHR ''-'' # CHR ''g'' # hs @ drop h (drop 2 t)"
    by metis
  with s s1 have shape: "s = CHR ''-'' # ds @ CHR ''-'' # CHR ''g'' # hs @ drop h (drop 2 t)"
    by simp
  have ds_dig: "list_all isDigit ds"
    unfolding ds_def by (simp add: list_all_iff) (metis set_takeWhileD)
  have total: "sum_list ns = 3 + length ds + length hs"
    using ns hs_len by simp
  have "5 \<le> length hs" "length hs \<le> 10"
    using h hs_len by (simp_all add: h_def)
  with shape ds_dig k hs_hex total show ?thesis
    by blast
qed

lemma takeWhile_ge:
  assumes "list_all p (take n xs)" "length (take n xs) = n"
  shows "n \<le> length (takeWhile p xs)"
proof -
  have "takeWhile p (take n xs @ drop n xs) = take n xs @ takeWhile p (drop n xs)"
    by (rule takeWhile_append2) (use assms in \<open>simp add: list_all_iff\<close>)
  then have "length (takeWhile p xs) = length (take n xs) + length (takeWhile p (drop n xs))"
    by simp
  with assms show ?thesis by simp
qed

lemma takeWhile_stop:
  assumes "list_all p (take n xs)" "length (take n xs) = n" "drop n xs = y # ys" "\<not> p y"
  shows "length (takeWhile p xs) = n"
proof -
  have "takeWhile p (take n xs @ drop n xs) = take n xs @ takeWhile p (drop n xs)"
    by (rule takeWhile_append2) (use assms in \<open>simp add: list_all_iff\<close>)
  moreover have "take n xs @ drop n xs = xs"
    by simp
  ultimately have "takeWhile p xs = take n xs"
    using assms(3,4) by simp
  with assms(2) show ?thesis by simp
qed

lemma suffixForm_matches:
  assumes "suffixForm s"
  shows "matchHere versionRe s \<noteq> None"
proof -
  from assms obtain d h where dh: "d \<in> set [1..<4]" "h \<in> set [5..<11]"
    and hd: "take 1 s = ''-''"
    and ds: "length (take d (drop 1 s)) = d" "list_all isDigit (take d (drop 1 s))"
    and mid: "take 2 (drop (1 + d) s) = ''-g''"
    and hs: "length (take h (drop (3 + d) s)) = h" "list_all isLowerHex (take h (drop (3 + d) s))"
    unfolding suffixForm_def by blast
  from dh have d: "1 \<le> d" "d \<le> 3" and h: "5 \<le> h"
    by auto
  from hd obtain s1 where s: "s = CHR ''-'' # s1" by (cases s) auto
  from mid s have mid1: "take 2 (drop d s1) = ''-g''" by simp
  then obtain r where r: "drop d s1 = CHR ''-'' # CHR ''g'' # r"
    by (metis append_take_drop_id append_Cons append_Nil)
  have k: "length (takeWhile isDigit s1) = d"
    by (rule takeWhile_stop [where y = "CHR ''-''" and ys = "CHR ''g'' # r"])
       (use ds s r in \<open>auto simp: isDigit_def\<close>)
  have "drop (3 + d) s = drop 2 (drop d s1)" using s by (simp add: eval_nat_numeral)
  with hs have "h \<le> length (takeWhile isLowerHex (drop 2 (drop d s1)))"
    by (intro takeWhile_ge) simp_all
  with h have "5 \<le> min 10 (length (takeWhile isLowerHex (drop 2 (drop d s1))))"
    by simp
  with s k d mid1 show ?thesis
    by (simp add: matchHere_versionRe Let_def del: drop_drop)
qed

lemma matches_suffixForm:
  assumes "matchHere versionRe s = Some ns"
  shows "suffixForm s"
proof -
  from versionRe_shape [OF assms] obtain ds hs rest where
    s: "s = CHR ''-'' # ds @ CHR ''-'' # CHR ''g'' # hs @ rest"
    and ds: "list_all isDigit ds" "1 \<le> length ds" "length ds \<le> 3"
    and hs: "list_all isLowerHex hs" "5 \<le> length hs" "length hs \<le> 10"
    by blast
  have "length ds \<in> set [1..<4]" "length hs \<in> set [5..<11]"
    using ds hs by auto
  moreover have "take 1 s = ''-''" using s by simp
  moreover have "take (length ds) (drop 1 s) = ds" using s by simp
  moreover have "take 2 (drop (1 + length ds) s) = ''-g''" using s by simp
  moreover have "take (length hs) (drop (3 + length ds) s) = hs"
  proof -
    have "s = (CHR ''-'' # ds @ ''-g'') @ hs @ rest" using s by simp
    moreover have "length (CHR ''-'' # ds @ ''-g'') = 3 + length ds" by simp
    ultimately have "drop (3 + length ds) s = hs @ rest"
      by (metis append_eq_conv_conj)
    then show ?thesis by simp
  qed
  ultimately show ?thesis
    unfolding suffixForm_def using ds(1) hs(1) by (metis (no_types, lifting))
qed

lemma replaceFrom_versionRe:
  "replaceFrom versionRe plusFirst a s = Inr (specNormalise s)"
proof (induction "length s" arbitrary: s a rule: less_induct)
  case less
  show ?case
  proof (cases s)
    case Nil
    have "matchHere versionRe [] = None" by (simp add: matchHere_versionRe)
    with Nil show ?thesis by simp
  next
    case (Cons c cs)
    show ?thesis
    proof (cases "matchHere versionRe s")
      case None
      then have "\<not> suffixForm s" using suffixForm_matches by blast
      moreover have "replaceFrom versionRe plusFirst False cs = Inr (specNormalise cs)"
        using less [of cs] Cons by simp
      ultimately show ?thesis using None Cons by simp
    next
      case (Some ns)
      from versionRe_shape [OF Some] obtain ds hs rest where
        s: "s = CHR ''-'' # ds @ CHR ''-'' # CHR ''g'' # hs @ rest"
        and ds: "list_all isDigit ds"
        and hs: "list_all isLowerHex hs"
        and n: "sum_list ns = 3 + length ds + length hs"
        by blast
      have form: "suffixForm s" using Some by (rule matches_suffixForm)
      have "s = (CHR ''-'' # ds @ CHR ''-'' # CHR ''g'' # hs) @ rest"
        using s by simp
      moreover have "length (CHR ''-'' # ds @ CHR ''-'' # CHR ''g'' # hs) = sum_list ns"
        using n by simp
      ultimately have tk: "take (sum_list ns) s = CHR ''-'' # ds @ CHR ''-'' # CHR ''g'' # hs"
        and dr: "drop (sum_list ns) s = rest"
        by (metis append_eq_conv_conj)+
      have "length rest < length s" using s by simp
      then have ih: "replaceFrom versionRe plusFirst True rest = Inr (specNormalise rest)"
        by (rule less)
      have nh1: "list_all (\<lambda>c. c \<noteq> CHR ''-'') ds"
        using ds by (auto simp: list_all_iff dest: digit_not_hyphen)
      have nh2: "list_all (\<lambda>c. c \<noteq> CHR ''-'') (CHR ''g'' # hs)"
        using hs by (auto simp: list_all_iff dest: hex_not_hyphen)
      have "specNormalise (ds @ CHR ''-'' # CHR ''g'' # hs @ rest)
            = ds @ specNormalise (CHR ''-'' # CHR ''g'' # hs @ rest)"
        using nh1 by (rule specNormalise_skip)
      also have "\<dots> = ds @ CHR ''-'' # specNormalise ((CHR ''g'' # hs) @ rest)"
        by (simp only: specNormalise_hyphen_g append_Cons)
      also have "\<dots> = ds @ CHR ''-'' # (CHR ''g'' # hs) @ specNormalise rest"
        by (simp only: specNormalise_skip [OF nh2])
      finally have "specNormalise s = CHR ''+'' # ds @ CHR ''-'' # CHR ''g'' # hs @ specNormalise rest"
        using form s by simp
      moreover have "replaceFrom versionRe plusFirst a s
          = Inr (CHR ''+'' # ds @ CHR ''-'' # CHR ''g'' # hs @ specNormalise rest)"
      proof -
        have pos: "sum_list ns \<noteq> 0" using n by simp
        show ?thesis
          unfolding Cons
          using Some [unfolded Cons] pos tk [unfolded Cons] dr [unfolded Cons] ih
          by (auto simp: plusFirst_def)
      qed
      ultimately show ?thesis by simp
    qed
  qed
qed



lemma ReplaceAllFunc_versionRe: "ReplaceAllFunc versionRe v plusFirst = Inr (specNormalise v)"
  by (simp add: ReplaceAllFunc_def replaceFrom_versionRe)

lemma length_specNormalise: "length (specNormalise v) = length v"
  by (induction v) auto


lemma runeWidth_0: "runeWidth es s = 0 \<longleftrightarrow> (\<forall>e \<in> set es. e \<noteq> [] \<longrightarrow> take (length e) s \<noteq> e)"
  by (auto simp: runeWidth_def find_None_iff find_Some_iff split: option.splits)

lemma runeWidth_pos:
  assumes "runeWidth es s \<noteq> 0"
  shows "\<exists>e \<in> set es. e \<noteq> [] \<and> s = e @ drop (runeWidth es s) s \<and> runeWidth es s = length e"
proof -
  from assms obtain e where e: "e \<in> set es" "e \<noteq> []" "take (length e) s = e" "runeWidth es s = length e"
    by (auto simp: runeWidth_def find_Some_iff split: option.splits) (metis nth_mem)
  from e(3) have "s = e @ drop (length e) s"
    by (metis append_take_drop_id)
  with e show ?thesis by auto
qed

lemma skipRunes_decomp:
  "\<exists>rs. set rs \<subseteq> set es \<and> s = concat rs @ skipRunes es s"
proof (induction es s rule: skipRunes.induct)
  case (1 es s)
  show ?case
  proof (cases "runeWidth es s = 0")
    case True
    then have "skipRunes es s = s" by (simp add: skipRunes.simps)
    then have "set [] \<subseteq> set es \<and> s = concat [] @ skipRunes es s" by simp
    then show ?thesis by blast
  next
    case False
    from runeWidth_pos[OF False] obtain e where e: "e \<in> set es" "s = e @ drop (runeWidth es s) s"
      by blast
    from 1[OF False] obtain rs where rs: "set rs \<subseteq> set es"
      "drop (runeWidth es s) s = concat rs @ skipRunes es (drop (runeWidth es s) s)" by blast
    from False have sk: "skipRunes es s = skipRunes es (drop (runeWidth es s) s)"
      by (subst skipRunes.simps) simp
    have "s = concat (e # rs) @ skipRunes es s"
      using e(2) rs(2) sk by (metis append.assoc concat.simps(2))
    moreover have "set (e # rs) \<subseteq> set es" using e(1) rs(1) by simp
    ultimately show ?thesis by blast
  qed
qed

lemma skipRunes_stops: "runeWidth es (skipRunes es s) = 0"
proof (induction es s rule: skipRunes.induct)
  case (1 es s)
  show ?case
  proof (cases "runeWidth es s = 0")
    case True
    then show ?thesis by (simp add: skipRunes.simps)
  next
    case False
    from False have sk: "skipRunes es s = skipRunes es (drop (runeWidth es s) s)"
      by (subst skipRunes.simps) simp
    from 1[OF False] sk show ?thesis by simp
  qed
qed

lemma skipRunes_id: "runeWidth es s = 0 \<Longrightarrow> skipRunes es s = s"
  by (simp add: skipRunes.simps)

lemma skipRunes_idem: "skipRunes es (skipRunes es s) = skipRunes es s"
  by (rule skipRunes_id) (rule skipRunes_stops)


lemma spaceRunes_nonempty: "e \<in> set spaceRunes \<Longrightarrow> e \<noteq> []"
  by (auto simp: spaceRunes_def)

lemma spaceRunes_prefix_free:
  "\<forall>e \<in> set spaceRunes. \<forall>e' \<in> set spaceRunes. take (length e') e = e' \<longrightarrow> e' = e"
  by (simp add: spaceRunes_def)

lemma startsWithSpace_iff: "startsWithSpace s \<longleftrightarrow> runeWidth spaceRunes s \<noteq> 0"
  using spaceRunes_nonempty by (auto simp: startsWithSpace_def runeWidth_0)

lemma take_rev_eq: "take (length e) (rev s) = rev e \<longleftrightarrow> HasSuffix s e"
proof (cases "length e \<le> length s")
  case True
  have "take (length e) (rev s) = rev (drop (length s - length e) s)"
    by (simp add: take_rev)
  with True show ?thesis by (simp add: HasSuffix_def)
next
  case False
  then have "length (take (length e) (rev s)) \<noteq> length (rev e)" by simp
  then have "take (length e) (rev s) \<noteq> rev e" by metis
  with False show ?thesis by (simp add: HasSuffix_def)
qed

lemma endsWithSpace_iff: "endsWithSpace s \<longleftrightarrow> runeWidth (map rev spaceRunes) (rev s) \<noteq> 0"
proof -
  have "runeWidth (map rev spaceRunes) (rev s) \<noteq> 0 \<longleftrightarrow>
        (\<exists>e \<in> set spaceRunes. rev e \<noteq> [] \<and> take (length (rev e)) (rev s) = rev e)"
    by (auto simp: runeWidth_0)
  also have "\<dots> \<longleftrightarrow> (\<exists>e \<in> set spaceRunes. HasSuffix s e)"
    using spaceRunes_nonempty by (auto simp: take_rev_eq)
  finally show ?thesis by (simp add: endsWithSpace_def)
qed

lemma TrimLeftSpace_decomp: "\<exists>l. set l \<subseteq> set spaceRunes \<and> s = concat l @ TrimLeftSpace s"
  unfolding TrimLeftSpace_def by (rule skipRunes_decomp)

lemma TrimRightSpace_decomp: "\<exists>r. set r \<subseteq> set spaceRunes \<and> s = TrimRightSpace s @ concat r"
proof -
  from skipRunes_decomp [of "map rev spaceRunes" "rev s"]
  obtain rs where rs: "set rs \<subseteq> set (map rev spaceRunes)"
    "rev s = concat rs @ skipRunes (map rev spaceRunes) (rev s)" by blast
  from rs(2) have "rev (rev s) = rev (concat rs @ skipRunes (map rev spaceRunes) (rev s))"
    by simp
  then have "s = TrimRightSpace s @ concat (map rev (rev rs))"
    by (simp add: TrimRightSpace_def rev_concat)
  moreover from rs(1) have "set (map rev (rev rs)) \<subseteq> set spaceRunes"
    by auto
  ultimately show ?thesis by blast
qed

lemma TrimLeftSpace_stops: "\<not> startsWithSpace (TrimLeftSpace s)"
  by (simp add: startsWithSpace_iff TrimLeftSpace_def skipRunes_stops)

lemma TrimRightSpace_stops: "\<not> endsWithSpace (TrimRightSpace s)"
  by (simp add: endsWithSpace_iff TrimRightSpace_def skipRunes_stops)

lemma startsWithSpace_prefix:
  assumes "startsWithSpace u"
  shows "startsWithSpace (u @ c)"
proof -
  from assms obtain e where e: "e \<in> set spaceRunes" "take (length e) u = e"
    by (auto simp: startsWithSpace_def)
  have "length (take (length e) u) \<le> length u" by simp
  with e(2) have "length e \<le> length u" by simp
  with e(2) have "take (length e) (u @ c) = e" by simp
  with e(1) show ?thesis by (auto simp: startsWithSpace_def)
qed

lemma TrimLeftSpace_id: "\<not> startsWithSpace s \<Longrightarrow> TrimLeftSpace s = s"
  by (simp add: startsWithSpace_iff TrimLeftSpace_def skipRunes_id)

lemma TrimRightSpace_id: "\<not> endsWithSpace s \<Longrightarrow> TrimRightSpace s = s"
  by (simp add: endsWithSpace_iff TrimRightSpace_def skipRunes_id)

lemma TrimSpace_decomp:
  "\<exists>l r. set l \<subseteq> set spaceRunes \<and> set r \<subseteq> set spaceRunes \<and>
         bs = concat l @ TrimSpace bs @ concat r"
proof -
  from TrimLeftSpace_decomp [of bs] obtain l where
    l: "set l \<subseteq> set spaceRunes" "bs = concat l @ TrimLeftSpace bs" by blast
  from TrimRightSpace_decomp [of "TrimLeftSpace bs"] obtain r where
    r: "set r \<subseteq> set spaceRunes" "TrimLeftSpace bs = TrimSpace bs @ concat r"
    by (auto simp: TrimSpace_def)
  from l(2) r(2) have "bs = concat l @ TrimSpace bs @ concat r" by simp
  with l(1) r(1) show ?thesis by blast
qed

lemma TrimSpace_no_leading: "\<not> startsWithSpace (TrimSpace bs)"
proof
  assume a: "startsWithSpace (TrimSpace bs)"
  from TrimRightSpace_decomp [of "TrimLeftSpace bs"] obtain r where
    "TrimLeftSpace bs = TrimSpace bs @ concat r"
    by (auto simp: TrimSpace_def)
  with startsWithSpace_prefix [OF a, of "concat r"] have "startsWithSpace (TrimLeftSpace bs)"
    by simp
  with TrimLeftSpace_stops show False by blast
qed

lemma TrimSpace_no_trailing: "\<not> endsWithSpace (TrimSpace bs)"
  unfolding TrimSpace_def by (rule TrimRightSpace_stops)

lemma TrimSpace_idem: "TrimSpace (TrimSpace bs) = TrimSpace bs"
proof -
  have "TrimLeftSpace (TrimSpace bs) = TrimSpace bs"
    by (rule TrimLeftSpace_id) (rule TrimSpace_no_leading)
  moreover have "TrimRightSpace (TrimSpace bs) = TrimSpace bs"
    by (rule TrimRightSpace_id) (rule TrimSpace_no_trailing)
  ultimately show ?thesis
    by (simp add: TrimSpace_def [of "TrimSpace bs"])
qed

lemma runeWidth_spaceRune:
  assumes "e \<in> set spaceRunes"
  shows "runeWidth spaceRunes (e @ rest) = length e"
proof -
  have "take (length e) (e @ rest) = e" by simp
  with assms spaceRunes_nonempty [OF assms] have "runeWidth spaceRunes (e @ rest) \<noteq> 0"
    unfolding runeWidth_0 by blast
  from runeWidth_pos [OF this] obtain e' where
    e': "e' \<in> set spaceRunes" "e' \<noteq> []"
    "e @ rest = e' @ drop (runeWidth spaceRunes (e @ rest)) (e @ rest)"
    "runeWidth spaceRunes (e @ rest) = length e'" by blast
  have "e' = e"
  proof (cases "length e' \<le> length e")
    case True
    from e'(3) have "take (length e') (e @ rest) = e'"
      by (metis append_eq_conv_conj)
    with True have "take (length e') e = e'" by simp
    with spaceRunes_prefix_free assms e'(1) show ?thesis by blast
  next
    case False
    from e'(3) have "take (length e) (e' @ drop (length e') (e @ rest)) = e"
      using e'(4) by (metis append_eq_conv_conj)
    with False have "take (length e) e' = e" by simp
    with spaceRunes_prefix_free assms e'(1) show ?thesis by metis
  qed
  with e'(4) show ?thesis by simp
qed

lemma skipRunes_Nil: "skipRunes es [] = []"
  by (subst skipRunes.simps) (simp add: runeWidth_0)

lemma TrimLeftSpace_concat:
  "set rs \<subseteq> set spaceRunes \<Longrightarrow> TrimLeftSpace (concat rs) = []"
proof (induction rs)
  case Nil
  then show ?case by (simp add: TrimLeftSpace_def skipRunes_Nil)
next
  case (Cons e rs)
  then have e: "e \<in> set spaceRunes" by simp
  from runeWidth_spaceRune [OF e, of "concat rs"] spaceRunes_nonempty [OF e]
  have "skipRunes spaceRunes (e @ concat rs) = skipRunes spaceRunes (concat rs)"
    by (subst skipRunes.simps) simp
  with Cons show ?case by (simp add: TrimLeftSpace_def)
qed

lemma TrimSpace_empty_iff:
  "TrimSpace bs = [] \<longleftrightarrow> (\<exists>rs. set rs \<subseteq> set spaceRunes \<and> bs = concat rs)"
proof
  assume e: "TrimSpace bs = []"
  from TrimSpace_decomp [of bs] obtain l r where
    lr: "set l \<subseteq> set spaceRunes" "set r \<subseteq> set spaceRunes" "bs = concat l @ TrimSpace bs @ concat r"
    by blast
  from lr(3) e have "bs = concat (l @ r)" by simp
  moreover from lr(1,2) have "set (l @ r) \<subseteq> set spaceRunes" by simp
  ultimately show "\<exists>rs. set rs \<subseteq> set spaceRunes \<and> bs = concat rs" by blast
next
  assume "\<exists>rs. set rs \<subseteq> set spaceRunes \<and> bs = concat rs"
  then have "TrimLeftSpace bs = []" using TrimLeftSpace_concat by blast
  then show "TrimSpace bs = []"
    by (simp add: TrimSpace_def TrimRightSpace_def skipRunes_Nil)
qed

lemma getGitVersion_eq:
  "getGitVersion w =
     (case gitDescribe w of
        Inl e \<Rightarrow> Returns (Inl e)
      | Inr out \<Rightarrow> Returns (Inr (specNormalise (TrimSpace out))))"
  by (simp add: getGitVersion_def runError_def ReplaceAllFunc_versionRe split: sum.splits)

section \<open>Claims on version resolution\<close>



text \<open>
  Claim C3. \<open>getVersion\<close> never panics and takes the first source that is available:
  the trimmed content of the release file, unchanged, whatever the describe command
  gives; otherwise the normalised, trimmed describe output; otherwise the token
  \<open>unknown-dev\<close>. Trimming takes from both ends of the bytes \<open>bs\<close> the white-space runes
  of Unicode and nothing else: \<open>bs\<close> is a run of white-space runes, then the trimmed
  bytes, then a run of white-space runes, and the trimmed bytes neither start nor end
  with a white-space rune.
\<close>

theorem getVersion_priority:
  "getVersion w =
     (case releaseFile w of
        Inr bs \<Rightarrow> Returns (TrimSpace bs)
      | Inl _ \<Rightarrow>
          (case gitDescribe w of
             Inr out \<Rightarrow> Returns (specNormalise (TrimSpace out))
           | Inl _ \<Rightarrow> Returns ''unknown-dev'')) \<and>
   (\<exists>l r. set l \<subseteq> set spaceRunes \<and> set r \<subseteq> set spaceRunes \<and>
          bs = concat l @ TrimSpace bs @ concat r) \<and>
   \<not> startsWithSpace (TrimSpace bs) \<and> \<not> endsWithSpace (TrimSpace bs)"
proof (intro conjI)
  show "getVersion w =
     (case releaseFile w of
        Inr bs \<Rightarrow> Returns (TrimSpace bs)
      | Inl _ \<Rightarrow>
          (case gitDescribe w of
             Inr out \<Rightarrow> Returns (specNormalise (TrimSpace out))
           | Inl _ \<Rightarrow> Returns ''unknown-dev''))"
    by (simp add: getVersion_def getReleaseVersion_def getGitVersion_eq split: sum.splits)
  show "\<exists>l r. set l \<subseteq> set spaceRunes \<and> set r \<subseteq> set spaceRunes \<and>
          bs = concat l @ TrimSpace bs @ concat r"
    by (rule TrimSpace_decomp)
  show "\<not> startsWithSpace (TrimSpace bs)"
    by (rule TrimSpace_no_leading)
  show "\<not> endsWithSpace (TrimSpace bs)"
    by (rule TrimSpace_no_trailing)
qed

theorem getVersion_priority_witness:
  "getVersion \<lparr>releaseFile = Inr ''v9.9.9'', gitDescribe = Inr ''v1.2.3-5-gabcdef01''\<rparr> = Returns ''v9.9.9'' \<and>
   getVersion \<lparr>releaseFile = Inr ([CHR 0xC2, CHR 0xA0] @ '' v9.9.9'' @ [CR, LF, CHR 0xE2, CHR 0x80, CHR 0xA8]),
               gitDescribe = Inl ExitStatus\<rparr> = Returns ''v9.9.9'' \<and>
   getVersion \<lparr>releaseFile = Inr (''v9 .9'' @ [CHR 0xC2, LF]), gitDescribe = Inl ExitStatus\<rparr>
     = Returns (''v9 .9'' @ [CHR 0xC2]) \<and>
   getVersion \<lparr>releaseFile = Inl NotExist, gitDescribe = Inr (''v1.2.3-5-gabcdef01'' @ [LF])\<rparr>
     = Returns ''v1.2.3+5-gabcdef01'' \<and>
   getVersion \<lparr>releaseFile = Inl NotExist, gitDescribe = Inl ExitStatus\<rparr>
     = Returns ''unknown-dev'' \<and>
   \<not> startsWithSpace ''v9.9.9'' \<and> \<not> endsWithSpace ''v9.9.9''"
proof -
  have t1: "TrimSpace ''v9.9.9'' = ''v9.9.9''" by code_simp
  have t2: "TrimSpace ([CHR 0xC2, CHR 0xA0] @ '' v9.9.9'' @ [CR, LF, CHR 0xE2, CHR 0x80, CHR 0xA8])
      = ''v9.9.9''" by code_simp
  have t3: "TrimSpace (''v9 .9'' @ [CHR 0xC2, LF]) = ''v9 .9'' @ [CHR 0xC2]" by code_simp
  have n: "specNormalise (TrimSpace (''v1.2.3-5-gabcdef01'' @ [LF])) = ''v1.2.3+5-gabcdef01''"
    by code_simp
  have a: "getVersion \<lparr>releaseFile = Inr ''v9.9.9'', gitDescribe = Inr ''v1.2.3-5-gabcdef01''\<rparr>
      = Returns ''v9.9.9''"
    using getVersion_priority
      [of "\<lparr>releaseFile = Inr ''v9.9.9'', gitDescribe = Inr ''v1.2.3-5-gabcdef01''\<rparr>" "[]",
       THEN conjunct1] t1
    by simp
  have b: "getVersion \<lparr>releaseFile = Inr ([CHR 0xC2, CHR 0xA0] @ '' v9.9.9'' @ [CR, LF, CHR 0xE2, CHR 0x80, CHR 0xA8]),
               gitDescribe = Inl ExitStatus\<rparr> = Returns ''v9.9.9''"
    using getVersion_priority
      [of "\<lparr>releaseFile = Inr ([CHR 0xC2, CHR 0xA0] @ '' v9.9.9'' @ [CR, LF, CHR 0xE2, CHR 0x80, CHR 0xA8]),
               gitDescribe = Inl ExitStatus\<rparr>" "[]", THEN conjunct1] t2
    by simp
  have c: "getVersion \<lparr>releaseFile = Inr (''v9 .9'' @ [CHR 0xC2, LF]), gitDescribe = Inl ExitStatus\<rparr>
     = Returns (''v9 .9'' @ [CHR 0xC2])"
    using getVersion_priority
      [of "\<lparr>releaseFile = Inr (''v9 .9'' @ [CHR 0xC2, LF]), gitDescribe = Inl ExitStatus\<rparr>" "[]",
       THEN conjunct1] t3
    by simp
  have d: "getVersion \<lparr>releaseFile = Inl NotExist, gitDescribe = Inr (''v1.2.3-5-gabcdef01'' @ [LF])\<rparr>
     = Returns ''v1.2.3+5-gabcdef01''"
    using getVersion_priority
      [of "\<lparr>releaseFile = Inl NotExist, gitDescribe = Inr (''v1.2.3-5-gabcdef01'' @ [LF])\<rparr>" "[]",
       THEN conjunct1] n
    by simp
  have e: "getVersion \<lparr>releaseFile = Inl NotExist, gitDescribe = Inl ExitStatus\<rparr>
     = Returns ''unknown-dev''"
    using getVersion_priority
      [of "\<lparr>releaseFile = Inl NotExist, gitDescribe = Inl ExitStatus\<rparr>" "[]", THEN conjunct1]
    by simp
  have f: "\<not> startsWithSpace ''v9.9.9'' \<and> \<not> endsWithSpace ''v9.9.9''"
    using getVersion_priority
      [of "\<lparr>releaseFile = Inl NotExist, gitDescribe = Inl ExitStatus\<rparr>"
          "[CHR 0xC2, CHR 0xA0] @ '' v9.9.9'' @ [CR, LF, CHR 0xE2, CHR 0x80, CHR 0xA8]"] t2
    by simp
  from a b c d e f show ?thesis by blast
qed

text \<open>
  Claim C9, as stated, fails: a release file that holds only white space gives the empty
  version, although the describe command would give a version.
\<close>

theorem getVersion_empty_release:
  "getVersion \<lparr>releaseFile = Inr [LF], gitDescribe = Inr ''v1.2.3''\<rparr> = Returns []"
  by code_simp

text \<open>
  Claim C9, amended. \<open>getVersion\<close> always returns, and the version is empty exactly
  when the source it is taken from is a run of white-space runes of Unicode, the empty
  run included: the release file when it is readable, otherwise the describe output when
  the command succeeds; the fallback token is never empty.
\<close>

theorem getVersion_nonempty_iff:
  "\<exists>v. getVersion w = Returns v \<and>
       (v \<noteq> [] \<longleftrightarrow>
          (case releaseFile w of
             Inr bs \<Rightarrow> \<not> (\<exists>rs. set rs \<subseteq> set spaceRunes \<and> bs = concat rs)
           | Inl _ \<Rightarrow>
               (case gitDescribe w of
                  Inr out \<Rightarrow> \<not> (\<exists>rs. set rs \<subseteq> set spaceRunes \<and> out = concat rs)
                | Inl _ \<Rightarrow> True)))"
proof -
  have "specNormalise v = [] \<longleftrightarrow> v = []" for v
    using length_specNormalise [of v] by (metis length_0_conv)
  then show ?thesis
    by (simp add: getVersion_def getReleaseVersion_def getGitVersion_eq TrimSpace_empty_iff
        split: sum.splits)
qed

theorem getVersion_nonempty_iff_witness:
  "getVersion \<lparr>releaseFile = Inr (''v9.9.9'' @ [LF]), gitDescribe = Inl ExitStatus\<rparr>
     = Returns ''v9.9.9'' \<and>
   \<not> (\<exists>rs. set rs \<subseteq> set spaceRunes \<and> ''v9.9.9'' @ [LF] = concat rs) \<and>
   getVersion \<lparr>releaseFile = Inr [CHR 0xC2, CHR 0xA0, LF], gitDescribe = Inl ExitStatus\<rparr>
     = Returns []"
proof -
  have a: "getVersion \<lparr>releaseFile = Inr (''v9.9.9'' @ [LF]), gitDescribe = Inl ExitStatus\<rparr>
     = Returns ''v9.9.9''" by code_simp
  have "[[CHR 0xC2, CHR 0xA0], [LF]] = [[CHR 0xC2, CHR 0xA0], [LF]] \<and>
        set [[CHR 0xC2, CHR 0xA0], [LF]] \<subseteq> set spaceRunes \<and>
        [CHR 0xC2, CHR 0xA0, LF] = concat [[CHR 0xC2, CHR 0xA0], [LF]]"
    by (simp add: spaceRunes_def)
  then have b: "\<exists>rs. set rs \<subseteq> set spaceRunes \<and> [CHR 0xC2, CHR 0xA0, LF] = concat rs"
    by blast
  from getVersion_nonempty_iff [of "\<lparr>releaseFile = Inr (''v9.9.9'' @ [LF]), gitDescribe = Inl ExitStatus\<rparr>"] a
  have c: "\<not> (\<exists>rs. set rs \<subseteq> set spaceRunes \<and> ''v9.9.9'' @ [LF] = concat rs)"
    by simp
  from getVersion_nonempty_iff [of "\<lparr>releaseFile = Inr [CHR 0xC2, CHR 0xA0, LF], gitDescribe = Inl ExitStatus\<rparr>"] b
  have d: "getVersion \<lparr>releaseFile = Inr [CHR 0xC2, CHR 0xA0, LF], gitDescribe = Inl ExitStatus\<rparr>
     = Returns []"
    by simp
  from a c d show ?thesis by blast
qed


section \<open>The tar archive: what a run writes\<close>

lemma tarGzLoop_Inr:
  "tarGzLoop w i fs tw = Inr tw' \<Longrightarrow>
     \<exists>es. tw' = tw @ es \<and> length es = length fs \<and>
       (\<forall>k<length fs. \<exists>sf. files w (src (fs ! k)) = Some sf \<and> es ! k = tarEntryOf (fs ! k) sf)"
proof (induction fs arbitrary: i tw)
  case Nil
  then show ?case by simp
next
  case (Cons f fs)
  from Cons.prems obtain sf where sf: "files w (src f) = Some sf"
    and rest: "tarGzLoop w (Suc i) fs (tw @ [tarEntryOf f sf]) = Inr tw'"
    by (auto simp: openFile_def tarEntryOf_def Let_def split: option.splits if_splits)
  from Cons.IH [OF rest] obtain es where es: "tw' = (tw @ [tarEntryOf f sf]) @ es"
    "length es = length fs"
    "\<forall>k<length fs. \<exists>sf. files w (src (fs ! k)) = Some sf \<and> es ! k = tarEntryOf (fs ! k) sf"
    by blast
  have "\<forall>k<length (f # fs). \<exists>sf'. files w (src ((f # fs) ! k)) = Some sf' \<and>
          (tarEntryOf f sf # es) ! k = tarEntryOf ((f # fs) ! k) sf'"
  proof (intro allI impI)
    fix k assume "k < length (f # fs)"
    then show "\<exists>sf'. files w (src ((f # fs) ! k)) = Some sf' \<and>
          (tarEntryOf f sf # es) ! k = tarEntryOf ((f # fs) ! k) sf'"
      using sf es(3) by (cases k) auto
  qed
  with es(1,2) show ?case
    by (intro exI [of _ "tarEntryOf f sf # es"]) simp
qed

lemma tarGzLoop_total:
  assumes "\<And>op. \<not> fails w op" "\<And>f. f \<in> set fs \<Longrightarrow> files w (src f) \<noteq> None"
  shows "\<exists>tw'. tarGzLoop w i fs tw = Inr tw'"
  using assms(2)
proof (induction fs arbitrary: i tw)
  case Nil
  then show ?case by simp
next
  case (Cons f fs)
  then obtain sf where "files w (src f) = Some sf" by fastforce
  with Cons assms(1) show ?case
    by (simp add: openFile_def Let_def)
qed

lemma tarGz_Inr:
  assumes "tarGz w out fs = Inr tw"
  shows "length tw = length fs \<and>
       (\<forall>k<length fs. \<exists>sf. files w (src (fs ! k)) = Some sf \<and> tw ! k = tarEntryOf (fs ! k) sf)"
proof -
  from assms have "tarGzLoop w 0 fs [] = Inr tw"
    by (auto simp: tarGz_def split: if_splits sum.splits)
  from tarGzLoop_Inr [OF this] show ?thesis by auto
qed

lemma tarGz_total:
  assumes "\<And>op. \<not> fails w op" "\<And>f. f \<in> set fs \<Longrightarrow> files w (src f) \<noteq> None"
  shows "\<exists>tw. tarGz w out fs = Inr tw"
  using tarGzLoop_total [of w fs 0 "[]"] assms by (auto simp: tarGz_def)


section \<open>Claims on the tar archive\<close>

text \<open>
  Claim C7. When \<open>tarGz\<close> ends without a fatal error, the archive has one entry for
  every manifest entry, in order; its header carries the destination path as name, the
  size, the full mode and the modification time of the source file, and its data are the
  bytes of the source file. The permission of the manifest entry is not used: the low nine
  bits of the header's mode are the permission bits of the source file. When no operation
  fails and every source file exists, \<open>tarGz\<close> does end without a fatal error.
\<close>

theorem tarGz_headers:
  "(tarGz w out fs = Inr tw \<longrightarrow>
      length tw = length fs \<and>
      (\<forall>k<length fs. \<exists>sf. files w (src (fs ! k)) = Some sf \<and>
         tw ! k = (\<lparr>Name = dst (fs ! k), Size = int (length (content sf)),
                    Mode = uint (mode sf), ModTime = modTime sf\<rparr>, content sf) \<and>
         Mode (fst (tw ! k)) mod 512 = uint (mode sf AND 511))) \<and>
   ((\<forall>op. \<not> fails w op) \<and> (\<forall>f\<in>set fs. files w (src f) \<noteq> None) \<longrightarrow>
      (\<exists>tw. tarGz w out fs = Inr tw))"
proof (intro conjI impI)
  assume run: "tarGz w out fs = Inr tw"
  from tarGz_Inr [OF run] show "length tw = length fs" by simp
  have perm: "uint m mod 512 = uint (m AND 511)" for m :: "32 word"
  proof -
    have "(511 :: 32 word) = mask 9"
      by (simp add: mask_eq_exp_minus_1)
    then have "uint (m AND 511) = uint (take_bit 9 m)"
      by (simp only: take_bit_eq_mask)
    also have "\<dots> = take_bit 9 (uint m)"
      by (rule unsigned_take_bit_eq)
    also have "\<dots> = uint m mod 512"
      by (simp add: take_bit_eq_mod)
    finally show ?thesis by simp
  qed
  show "\<forall>k<length fs. \<exists>sf. files w (src (fs ! k)) = Some sf \<and>
         tw ! k = (\<lparr>Name = dst (fs ! k), Size = int (length (content sf)),
                    Mode = uint (mode sf), ModTime = modTime sf\<rparr>, content sf) \<and>
         Mode (fst (tw ! k)) mod 512 = uint (mode sf AND 511)"
    using tarGz_Inr [OF run] perm by (fastforce simp: tarEntryOf_def)
next
  assume "(\<forall>op. \<not> fails w op) \<and> (\<forall>f\<in>set fs. files w (src f) \<noteq> None)"
  then show "\<exists>tw. tarGz w out fs = Inr tw"
    using tarGz_total [of w fs out] by blast
qed

theorem tarGz_headers_witness:
  "\<exists>tw. tarGz exampleWorld ''o.tar.gz'' [\<lparr>src = ''syncthing'', dst = ''st/syncthing'', perm = 420\<rparr>]
         = Inr tw \<and>
        tw = [(\<lparr>Name = ''st/syncthing'', Size = 3, Mode = 493, ModTime = 13\<rparr>, ''ELF'')]"
proof -
  let ?fs = "[\<lparr>src = ''syncthing'', dst = ''st/syncthing'', perm = 420\<rparr>]"
  have nofail: "\<forall>op. \<not> fails exampleWorld op"
    by (simp add: exampleWorld_def)
  have present: "\<forall>f\<in>set ?fs. files exampleWorld (src f) \<noteq> None"
    by (simp add: exampleWorld_def exampleFiles_def)
  have sf: "files exampleWorld ''syncthing'' = Some \<lparr>content = ''ELF'', mode = 493, modTime = 13\<rparr>"
    by (simp add: exampleWorld_def exampleFiles_def)
  from tarGz_headers [of exampleWorld "''o.tar.gz''" ?fs] nofail present
  obtain tw where run: "tarGz exampleWorld ''o.tar.gz'' ?fs = Inr tw"
    by blast
  with tarGz_headers [of exampleWorld "''o.tar.gz''" ?fs tw] sf
  have "length tw = 1" and
    "tw ! 0 = (\<lparr>Name = ''st/syncthing'', Size = 3, Mode = 493, ModTime = 13\<rparr>, ''ELF'')"
    by auto
  then have "tw = [(\<lparr>Name = ''st/syncthing'', Size = 3, Mode = 493, ModTime = 13\<rparr>, ''ELF'')]"
    by (cases tw) auto
  with run show ?thesis by blast
qed

lemma tarGz_names:
  assumes "tarGz w out fs = Inr tw"
  shows "map (Name \<circ> fst) tw = map dst fs"
proof (rule nth_equalityI)
  show "length (map (Name \<circ> fst) tw) = length (map dst fs)"
    using tarGz_Inr [OF assms] by simp
next
  fix k assume "k < length (map (Name \<circ> fst) tw)"
  then have k: "k < length fs" "k < length tw"
    using tarGz_Inr [OF assms] by simp_all
  with tarGz_Inr [OF assms] obtain sf where "tw ! k = tarEntryOf (fs ! k) sf"
    by blast
  with k show "map (Name \<circ> fst) tw ! k = map dst fs ! k"
    by (simp add: tarEntryOf_def)
qed

text \<open>
  Claim C4, as stated, fails: with a file \<open>extra/README.txt\<close> in the checkout, the
  manifest of \<open>buildTar\<close> has the destination \<open>README.txt\<close> twice; nothing fails and
  both entries are written.
\<close>

theorem buildTar_duplicate_destination:
  "map_sum id (map (Name \<circ> fst)) (buildTar exampleConfig exampleWorld) =
     Inr [''syncthing-linux-amd64-v1.2.3/README.txt'',
          ''syncthing-linux-amd64-v1.2.3/LICENSE.txt'',
          ''syncthing-linux-amd64-v1.2.3/AUTHORS.txt'',
          ''syncthing-linux-amd64-v1.2.3/syncthing'',
          ''syncthing-linux-amd64-v1.2.3/syncthing.md5'',
          ''syncthing-linux-amd64-v1.2.3/README.txt'']"
  by code_simp

text \<open>
  Claim C4, amended. \<open>buildTar\<close> does not compare the destination paths of its
  manifest: a run that ends without a fatal error has written one archive member for
  every manifest entry, in manifest order and under the entry's destination path, a
  repeated path included; and the run ends without a fatal error whenever no operation
  fails and every source file exists.
\<close>

theorem buildTar_writes_every_entry:
  "(buildTar c w = Inr tw \<longrightarrow> map (Name \<circ> fst) tw = map dst (tarManifest w (tarName c))) \<and>
   ((\<forall>op. \<not> fails w op) \<and> (\<forall>f\<in>set (tarManifest w (tarName c)). files w (src f) \<noteq> None) \<longrightarrow>
      (\<exists>tw. buildTar c w = Inr tw))"
proof (intro conjI impI)
  assume "buildTar c w = Inr tw"
  then have "tarGz w (tarName c @ ''.tar.gz'') (tarManifest w (tarName c)) = Inr tw"
    by (simp add: buildTar_def Let_def split: if_splits)
  then show "map (Name \<circ> fst) tw = map dst (tarManifest w (tarName c))"
    by (rule tarGz_names)
next
  assume "(\<forall>op. \<not> fails w op) \<and> (\<forall>f\<in>set (tarManifest w (tarName c)). files w (src f) \<noteq> None)"
  then show "\<exists>tw. buildTar c w = Inr tw"
    using tarGz_total [of w "tarManifest w (tarName c)" "tarName c @ ''.tar.gz''"]
    by (simp add: buildTar_def Let_def)
qed

theorem buildTar_writes_every_entry_witness:
  "\<exists>tw. buildTar exampleConfig exampleWorld = Inr tw \<and>
        map (Name \<circ> fst) tw = map dst (tarManifest exampleWorld (tarName exampleConfig)) \<and>
        length tw = 6"
proof -
  have nofail: "\<forall>op. \<not> fails exampleWorld op"
    by (simp add: exampleWorld_def)
  have present: "\<forall>f\<in>set (tarManifest exampleWorld (tarName exampleConfig)).
      files exampleWorld (src f) \<noteq> None"
    by (simp add: tarManifest_def listFiles_def exampleWorld_def exampleFiles_def)
  have len: "length (tarManifest exampleWorld (tarName exampleConfig)) = 6"
    by (simp add: tarManifest_def listFiles_def exampleWorld_def)
  from buildTar_writes_every_entry [of exampleConfig exampleWorld] nofail present
  obtain tw where run: "buildTar exampleConfig exampleWorld = Inr tw"
    by blast
  with buildTar_writes_every_entry [of exampleConfig exampleWorld tw]
  have names: "map (Name \<circ> fst) tw = map dst (tarManifest exampleWorld (tarName exampleConfig))"
    by blast
  then have "length tw = 6" using len by (metis length_map)
  with run names show ?thesis by blast
qed


section \<open>The zip archive, and the failures of both writers\<close>

lemma zipLoop_kept:
  "zipLoop w i fs zw (Some e) = Inr (zw', kept') \<Longrightarrow> fs = [] \<and> kept' = Some e"
  by (cases fs)
     (auto simp: zipCreateHeader_def Let_def split: sum.splits if_splits)

lemma zipLoop_Cons_Inr:
  assumes "zipLoop w i (f # fs) zw kept = Inr (zw', None)"
  shows "\<exists>sf. files w (src f) = Some sf \<and> kept = None \<and>
     \<not> fails w (Open i) \<and> \<not> fails w (Stat i) \<and> \<not> fails w (InfoHeader i) \<and>
     \<not> fails w (CreateHeader i) \<and>
     (if HasSuffix (dst f) ''.txt'' then \<not> fails w (ReadAll i) \<and> \<not> fails w (Write i)
      else \<not> fails w (Copy i)) \<and>
     zipLoop w (Suc i) fs (zw @ [zipEntryOf f sf]) None = Inr (zw', None)"
proof -
  from assms obtain sf where sf: "openFile w (Open i) (src f) = Inr sf"
    by (cases "openFile w (Open i) (src f)") auto
  then have op: "files w (src f) = Some sf" "\<not> fails w (Open i)"
    by (auto simp: openFile_def split: option.splits if_splits)
  from assms sf have st: "\<not> fails w (Stat i)" "\<not> fails w (InfoHeader i)"
    by (auto split: if_splits)
  from assms sf st have ch: "zipCreateHeader w i kept = None"
    by (cases "zipCreateHeader w i kept") (auto simp: Let_def split: if_splits)
  then have k: "kept = None" "\<not> fails w (CreateHeader i)"
    by (auto simp: zipCreateHeader_def split: option.splits if_splits)
  show ?thesis
  proof (cases "HasSuffix (dst f) ''.txt''")
    case True
    from assms sf st ch True have rd: "\<not> fails w (ReadAll i)"
      by (auto simp: Let_def split: if_splits)
    have wr: "\<not> fails w (Write i)"
    proof
      assume "fails w (Write i)"
      with assms sf st ch True rd obtain zw0 where
        "zipLoop w (Suc i) fs zw0 (Some (Write i)) = Inr (zw', None)"
        by (auto simp: Let_def)
      from zipLoop_kept [OF this] show False by simp
    qed
    from assms sf st ch True rd wr
    have "zipLoop w (Suc i) fs (zw @ [zipEntryOf f sf]) None = Inr (zw', None)"
      by (simp add: Let_def zipEntryOf_def)
    with op st k True rd wr show ?thesis by simp
  next
    case False
    from assms sf st ch False have cp: "\<not> fails w (Copy i)"
      by (auto simp: Let_def split: if_splits)
    from assms sf st ch False cp
    have "zipLoop w (Suc i) fs (zw @ [zipEntryOf f sf]) None = Inr (zw', None)"
      by (simp add: Let_def zipEntryOf_def)
    with op st k False cp show ?thesis by simp
  qed
qed

lemma zipLoop_Inr:
  "zipLoop w i fs zw kept = Inr (zw', None) \<Longrightarrow>
     \<exists>es. zw' = zw @ es \<and> length es = length fs \<and>
       (\<forall>k<length fs. \<exists>sf. files w (src (fs ! k)) = Some sf \<and>
          es ! k = zipEntryOf (fs ! k) sf)"
proof (induction fs arbitrary: i zw kept)
  case Nil
  then show ?case by simp
next
  case (Cons f fs)
  from zipLoop_Cons_Inr [OF Cons.prems] obtain sf where sf: "files w (src f) = Some sf"
    and rest: "zipLoop w (Suc i) fs (zw @ [zipEntryOf f sf]) None = Inr (zw', None)"
    by blast
  from Cons.IH [OF rest] obtain es where es: "zw' = (zw @ [zipEntryOf f sf]) @ es"
    "length es = length fs"
    "\<forall>k<length fs. \<exists>sf. files w (src (fs ! k)) = Some sf \<and>
        es ! k = zipEntryOf (fs ! k) sf"
    by blast
  have "\<forall>k<length (f # fs). \<exists>sf'. files w (src ((f # fs) ! k)) = Some sf' \<and>
          (zipEntryOf f sf # es) ! k = zipEntryOf ((f # fs) ! k) sf'"
  proof (intro allI impI)
    fix k assume "k < length (f # fs)"
    then show "\<exists>sf'. files w (src ((f # fs) ! k)) = Some sf' \<and>
          (zipEntryOf f sf # es) ! k = zipEntryOf ((f # fs) ! k) sf'"
      using sf es(3) by (cases k) auto
  qed
  with es(1,2) show ?case
    by (intro exI [of _ "zipEntryOf f sf # es"]) simp
qed

lemma zipFile_loop:
  assumes "zipFile w out fs = Inr zw"
  shows "zipLoop w 0 fs [] None = Inr (zw, None) \<and>
     \<not> fails w Create \<and> \<not> fails w CloseZip \<and> \<not> fails w CloseFile"
proof -
  from assms have c: "\<not> fails w Create"
    by (auto simp: zipFile_def split: if_splits)
  with assms obtain zw' kept where l: "zipLoop w 0 fs [] None = Inr (zw', kept)"
    by (cases "zipLoop w 0 fs [] None") (auto simp: zipFile_def)
  with assms c have "kept = None"
    by (cases kept) (auto simp: zipFile_def)
  with assms c l show ?thesis
    by (auto simp: zipFile_def split: if_splits)
qed

lemma zipFile_Inr:
  assumes "zipFile w out fs = Inr zw"
  shows "length zw = length fs \<and>
       (\<forall>k<length fs. \<exists>sf. files w (src (fs ! k)) = Some sf \<and>
          zw ! k = zipEntryOf (fs ! k) sf)"
proof -
  from zipFile_loop [OF assms] have "zipLoop w 0 fs [] None = Inr (zw, None)"
    by simp
  from zipLoop_Inr [OF this] show ?thesis by auto
qed

lemma Replace_LF:
  "Replace s [LF] [LF, CR] = concat (map (\<lambda>c. if c = LF then [LF, CR] else [c]) s)"
  by (induction s) auto

lemma tarGzLoop_ops:
  "tarGzLoop w i fs tw = Inr tw' \<Longrightarrow> k < length fs \<Longrightarrow>
     \<not> fails w (Open (i + k)) \<and> \<not> fails w (Stat (i + k)) \<and>
     \<not> fails w (WriteHeader (i + k)) \<and> \<not> fails w (Copy (i + k))"
proof (induction fs arbitrary: i tw k)
  case Nil
  then show ?case by simp
next
  case (Cons f fs)
  from Cons.prems(1) obtain sf where here: "\<not> fails w (Open i)" "\<not> fails w (Stat i)"
      "\<not> fails w (WriteHeader i)" "\<not> fails w (Copy i)"
    and rest: "tarGzLoop w (Suc i) fs (tw @ [tarEntryOf f sf]) = Inr tw'"
    by (auto simp: openFile_def tarEntryOf_def Let_def split: option.splits if_splits)
  show ?case
  proof (cases k)
    case 0
    with here show ?thesis by simp
  next
    case (Suc j)
    with Cons.prems(2) have "j < length fs" by simp
    from Cons.IH [OF rest this] Suc show ?thesis by simp
  qed
qed

lemma tarGz_fault_fatal:
  assumes "fails w op" "op \<in> tarGzOps (length fs)"
  shows "\<exists>e. tarGz w out fs = Inl e"
proof (cases "tarGz w out fs")
  case (Inl e)
  then show ?thesis by blast
next
  case (Inr tw)
  then have ends: "\<not> fails w Create" "\<not> fails w CloseTar" "\<not> fails w CloseGzip"
      "\<not> fails w CloseFile"
    and loop: "tarGzLoop w 0 fs [] = Inr tw"
    by (auto simp: tarGz_def split: if_splits sum.splits)
  from assms(2) ends assms(1) obtain k where "k < length fs"
    "op \<in> {Open k, Stat k, WriteHeader k, Copy k}"
    by (auto simp: tarGzOps_def)
  with tarGzLoop_ops [OF loop, of k] assms(1) show ?thesis by auto
qed

lemma zipLoop_ops:
  "zipLoop w i fs zw kept = Inr (zw', None) \<Longrightarrow> k < length fs \<Longrightarrow>
     \<not> fails w (Open (i + k)) \<and> \<not> fails w (Stat (i + k)) \<and>
     \<not> fails w (InfoHeader (i + k)) \<and> \<not> fails w (CreateHeader (i + k)) \<and>
     (if HasSuffix (dst (fs ! k)) ''.txt''
      then \<not> fails w (ReadAll (i + k)) \<and> \<not> fails w (Write (i + k))
      else \<not> fails w (Copy (i + k)))"
proof (induction fs arbitrary: i zw kept k)
  case Nil
  then show ?case by simp
next
  case (Cons f fs)
  from zipLoop_Cons_Inr [OF Cons.prems(1)] obtain sf where
    here: "\<not> fails w (Open i)" "\<not> fails w (Stat i)"
      "\<not> fails w (InfoHeader i)" "\<not> fails w (CreateHeader i)"
      "if HasSuffix (dst f) ''.txt'' then \<not> fails w (ReadAll i) \<and> \<not> fails w (Write i)
       else \<not> fails w (Copy i)"
    and rest: "zipLoop w (Suc i) fs (zw @ [zipEntryOf f sf]) None = Inr (zw', None)"
    by blast
  show ?case
  proof (cases k)
    case 0
    with here show ?thesis by simp
  next
    case (Suc j)
    with Cons.prems(2) have "j < length fs" by simp
    from Cons.IH [OF rest this] Suc show ?thesis by (auto split: if_splits)
  qed
qed

lemma zipFile_fault_fatal:
  assumes "fails w op" "op \<in> zipFileOps fs"
  shows "\<exists>e. zipFile w out fs = Inl e"
proof (cases "zipFile w out fs")
  case (Inl e)
  then show ?thesis by blast
next
  case (Inr zw)
  from zipFile_loop [OF Inr] have ends: "\<not> fails w Create" "\<not> fails w CloseZip"
      "\<not> fails w CloseFile"
    and loop: "zipLoop w 0 fs [] None = Inr (zw, None)"
    by simp_all
  from assms(2) ends assms(1) obtain k where k: "k < length fs"
    "op \<in> {Open k, Stat k, InfoHeader k, CreateHeader k} \<union>
        (if HasSuffix (dst (fs ! k)) ''.txt'' then {ReadAll k, Write k} else {Copy k})"
    by (auto simp: zipFileOps_def)
  with zipLoop_ops [OF loop, of k] assms(1) show ?thesis
    by (auto split: if_splits)
qed

lemma zipEntryOf_binary:
  "\<not> HasSuffix (dst f) ''.txt'' \<Longrightarrow> snd (zipEntryOf f sf) = content sf"
  by (simp add: zipEntryOf_def Let_def)

lemma zipEntryOf_text:
  "HasSuffix (dst f) ''.txt'' \<Longrightarrow>
     snd (zipEntryOf f sf) = Replace (content sf) [LF] [LF, CR] \<and>
     UncompressedSize64 (fst (zipEntryOf f sf)) = of_nat (length (snd (zipEntryOf f sf))) \<and>
     UncompressedSize (fst (zipEntryOf f sf)) = of_nat (length (snd (zipEntryOf f sf)))"
  by (simp add: zipEntryOf_def Let_def)

lemma zipFile_write_error_kept:
  "zipFile (exampleWorld\<lparr>fails := (\<lambda>op. op = Write 0)\<rparr>) ''st.zip''
     [\<lparr>src = ''README.md'', dst = ''st/README.txt'', perm = 0\<rparr>] = Inl (Write 0) \<and>
   zipFile (exampleWorld\<lparr>fails := (\<lambda>op. op = Write 0)\<rparr>) ''st.zip''
     [\<lparr>src = ''README.md'', dst = ''st/README.txt'', perm = 0\<rparr>,
      \<lparr>src = ''syncthing'', dst = ''st/syncthing'', perm = 0\<rparr>] = Inl (Write 0)"
  by (simp add: zipFile_def openFile_def zipCreateHeader_def exampleWorld_def exampleFiles_def
      HasSuffix_def FileInfoHeader_def Let_def)

section \<open>Claims on the zip archive\<close>

text \<open>
  Claim C1 fails on the input of its own example. For the source bytes a, LF, b, LF of an
  entry whose destination ends in \<open>.txt\<close> the claim promises a, CR, LF, b, CR, LF
  (\<open>specCRLF\<close>); \<open>zipFile\<close> archives a, LF, CR, b, LF, CR: the replacement puts the
  carriage return after the line feed. For the source bytes a, CR, LF, whose line feed
  already follows a carriage return, the claim promises the same three bytes; \<open>zipFile\<close>
  archives a, CR, LF, CR.
\<close>

theorem zipFile_txt_counterexample:
  "map_sum id (map snd)
     (zipFile exampleWorld ''st.zip''
        [\<lparr>src = ''README.md'', dst = ''st/README.txt'', perm = 0\<rparr>,
         \<lparr>src = ''NOTES'', dst = ''st/NOTES.txt'', perm = 0\<rparr>])
     = Inr [''a'' @ [LF, CR] @ ''b'' @ [LF, CR], ''a'' @ [CR, LF, CR]] \<and>
   specCRLF (''a'' @ [LF] @ ''b'' @ [LF]) = ''a'' @ [CR, LF] @ ''b'' @ [CR, LF] \<and>
   specCRLF (''a'' @ [CR, LF]) = ''a'' @ [CR, LF]"
  by (simp add: zipFile_def openFile_def zipCreateHeader_def exampleWorld_def exampleFiles_def
      HasSuffix_def FileInfoHeader_def specCRLF_def Let_def)

text \<open>
  Claim C8. Every failure of an operation that \<open>tarGz\<close> or \<open>zipFile\<close> performs on the
  output file, on an archive stream or on an entry of the manifest ends the run with a
  fatal error, and so does a source file that is missing. This holds also of the write
  of a text file in \<open>zipFile\<close>, whose result the code drops: the writer keeps the error
  and the next \<open>zw.CreateHeader\<close> or \<open>zw.Close\<close>, which are checked, returns it.
\<close>

theorem archive_failure_fatal:
  "(fails w op \<and> op \<in> tarGzOps (length fs) \<longrightarrow> (\<exists>e. tarGz w out fs = Inl e)) \<and>
   (fails w op \<and> op \<in> zipFileOps fs \<longrightarrow> (\<exists>e. zipFile w out fs = Inl e)) \<and>
   (k < length fs \<and> files w (src (fs ! k)) = None \<longrightarrow>
      (\<exists>e. tarGz w out fs = Inl e) \<and> (\<exists>e. zipFile w out fs = Inl e))"
proof (intro conjI impI)
  assume "fails w op \<and> op \<in> tarGzOps (length fs)"
  then show "\<exists>e. tarGz w out fs = Inl e"
    using tarGz_fault_fatal by blast
next
  assume "fails w op \<and> op \<in> zipFileOps fs"
  then show "\<exists>e. zipFile w out fs = Inl e"
    using zipFile_fault_fatal by blast
next
  assume a: "k < length fs \<and> files w (src (fs ! k)) = None"
  show "\<exists>e. tarGz w out fs = Inl e"
  proof (cases "tarGz w out fs")
    case (Inl e)
    then show ?thesis by blast
  next
    case (Inr tw)
    from tarGz_Inr [OF Inr] a show ?thesis by auto
  qed
next
  assume a: "k < length fs \<and> files w (src (fs ! k)) = None"
  show "\<exists>e. zipFile w out fs = Inl e"
  proof (cases "zipFile w out fs")
    case (Inl e)
    then show ?thesis by blast
  next
    case (Inr zw)
    from zipFile_Inr [OF Inr] a show ?thesis by auto
  qed
qed

theorem archive_failure_fatal_witness:
  "(\<exists>e. tarGz (exampleWorld\<lparr>fails := (\<lambda>op. op = CloseGzip)\<rparr>) ''st.tar.gz''
          [\<lparr>src = ''README.md'', dst = ''st/README.txt'', perm = 0\<rparr>] = Inl e) \<and>
   (\<exists>e. zipFile (exampleWorld\<lparr>fails := (\<lambda>op. op = Write 0)\<rparr>) ''st.zip''
          [\<lparr>src = ''README.md'', dst = ''st/README.txt'', perm = 0\<rparr>,
           \<lparr>src = ''syncthing'', dst = ''st/syncthing'', perm = 0\<rparr>] = Inl e) \<and>
   (\<exists>e. zipFile exampleWorld ''st.zip''
          [\<lparr>src = ''README.md'', dst = ''st/README.txt'', perm = 0\<rparr>,
           \<lparr>src = ''absent'', dst = ''st/absent'', perm = 0\<rparr>] = Inl e)"
proof -
  let ?one = "[\<lparr>src = ''README.md'', dst = ''st/README.txt'', perm = 0\<rparr>]"
  let ?two = "[\<lparr>src = ''README.md'', dst = ''st/README.txt'', perm = 0\<rparr>,
               \<lparr>src = ''syncthing'', dst = ''st/syncthing'', perm = 0\<rparr>]"
  let ?gone = "[\<lparr>src = ''README.md'', dst = ''st/README.txt'', perm = 0\<rparr>,
                \<lparr>src = ''absent'', dst = ''st/absent'', perm = 0\<rparr>]"
  have h1: "fails (exampleWorld\<lparr>fails := (\<lambda>op. op = CloseGzip)\<rparr>) CloseGzip \<and>
            CloseGzip \<in> tarGzOps (length ?one)"
    by (simp add: tarGzOps_def)
  have h2: "fails (exampleWorld\<lparr>fails := (\<lambda>op. op = Write 0)\<rparr>) (Write 0) \<and>
            Write 0 \<in> zipFileOps ?two"
    by (simp add: zipFileOps_def lessThan_Suc HasSuffix_def)
  have h3: "1 < length ?gone \<and> files exampleWorld (src (?gone ! 1)) = None"
    by (simp add: exampleWorld_def exampleFiles_def)
  from archive_failure_fatal
    [of "exampleWorld\<lparr>fails := (\<lambda>op. op = CloseGzip)\<rparr>" CloseGzip ?one "''st.tar.gz''" 0] h1
  have a: "\<exists>e. tarGz (exampleWorld\<lparr>fails := (\<lambda>op. op = CloseGzip)\<rparr>) ''st.tar.gz'' ?one = Inl e"
    by blast
  from archive_failure_fatal
    [of "exampleWorld\<lparr>fails := (\<lambda>op. op = Write 0)\<rparr>" "Write 0" ?two "''st.zip''" 0] h2
  have b: "\<exists>e. zipFile (exampleWorld\<lparr>fails := (\<lambda>op. op = Write 0)\<rparr>) ''st.zip'' ?two = Inl e"
    by blast
  from archive_failure_fatal [of exampleWorld Create ?gone "''st.zip''" 1] h3
  have c: "\<exists>e. zipFile exampleWorld ''st.zip'' ?gone = Inl e"
    by blast
  from a b c show ?thesis by blast
qed

section \<open>Claim on the checksum file\<close>

lemma hexDigit_lower: "isLowerHex (hexDigit n)"
proof -
  have "n mod 16 < length ''0123456789abcdef''" by simp
  then have "''0123456789abcdef'' ! (n mod 16) \<in> set ''0123456789abcdef''"
    by (rule nth_mem)
  then show ?thesis unfolding hexDigit_def isLowerHex_def .
qed

lemma hexOf_lower: "list_all isLowerHex (hexOf bs)"
  by (induction bs) (simp_all add: hexOf_def hexDigit_lower)

lemma length_hexOf: "length (hexOf bs) = 2 * length bs"
  by (induction bs) (simp_all add: hexOf_def)

lemma md5File_ok:
  assumes "\<not> fails w Md5Open" "\<not> fails w Md5Read" "\<not> fails w Md5Create"
    "\<not> fails w Md5Write" "\<not> fails w Md5Close"
    and "files w path = Some f"
  shows "\<exists>fs'. md5File md5 w path = (None, fs') \<and>
           map_option content (fs' (path @ ''.md5'')) = Some (hexOf (md5 (content f)) @ [LF]) \<and>
           fs' path = Some f"
  using assms
  by (auto simp: md5File_def openFile_def createFile_def writeFile_def Let_def
      split: option.splits)

text \<open>
  Claim C10. When the binary exists and none of the five operations of \<open>md5File\<close>
  fails, \<open>md5File\<close> returns no error and the file \<open>path.md5\<close> holds the digest of all
  the bytes of the binary in lower-case hexadecimal, two digits for each byte of the
  digest, and then one line feed. A second call on the result returns no error either
  and leaves the same bytes in \<open>path.md5\<close>.
\<close>

theorem md5File_sidecar:
  assumes "\<not> fails w Md5Open" "\<not> fails w Md5Read" "\<not> fails w Md5Create"
    "\<not> fails w Md5Write" "\<not> fails w Md5Close"
    and "files w path = Some f"
  shows "\<exists>fs' fs''.
           md5File md5 w path = (None, fs') \<and>
           map_option content (fs' (path @ ''.md5'')) = Some (hexOf (md5 (content f)) @ [LF]) \<and>
           list_all isLowerHex (hexOf (md5 (content f))) \<and>
           length (hexOf (md5 (content f))) = 2 * length (md5 (content f)) \<and>
           md5File md5 (w\<lparr>files := fs'\<rparr>) path = (None, fs'') \<and>
           map_option content (fs'' (path @ ''.md5'')) = map_option content (fs' (path @ ''.md5''))"
proof -
  from md5File_ok [OF assms, of md5] obtain fs' where first: "md5File md5 w path = (None, fs')"
    "map_option content (fs' (path @ ''.md5'')) = Some (hexOf (md5 (content f)) @ [LF])"
    "fs' path = Some f"
    by blast
  have "\<exists>fs''. md5File md5 (w\<lparr>files := fs'\<rparr>) path = (None, fs'') \<and>
           map_option content (fs'' (path @ ''.md5'')) = Some (hexOf (md5 (content f)) @ [LF]) \<and>
           fs'' path = Some f"
    by (rule md5File_ok) (use assms first(3) in simp_all)
  then obtain fs'' where second: "md5File md5 (w\<lparr>files := fs'\<rparr>) path = (None, fs'')"
    "map_option content (fs'' (path @ ''.md5'')) = Some (hexOf (md5 (content f)) @ [LF])"
    by blast
  from first(1,2) second have "md5File md5 w path = (None, fs') \<and>
           map_option content (fs' (path @ ''.md5'')) = Some (hexOf (md5 (content f)) @ [LF]) \<and>
           list_all isLowerHex (hexOf (md5 (content f))) \<and>
           length (hexOf (md5 (content f))) = 2 * length (md5 (content f)) \<and>
           md5File md5 (w\<lparr>files := fs'\<rparr>) path = (None, fs'') \<and>
           map_option content (fs'' (path @ ''.md5'')) = map_option content (fs' (path @ ''.md5''))"
    by (simp only: hexOf_lower length_hexOf simp_thms)
  then show ?thesis by blast
qed

theorem md5File_sidecar_witness:
  "\<exists>fs' fs''.
     md5File (\<lambda>bs. [CHR 0xAB, CHR 0x01]) exampleWorld ''syncthing'' = (None, fs') \<and>
     map_option content (fs' ''syncthing.md5'') = Some (''ab01'' @ [LF]) \<and>
     md5File (\<lambda>bs. [CHR 0xAB, CHR 0x01]) (exampleWorld\<lparr>files := fs'\<rparr>) ''syncthing'' = (None, fs'') \<and>
     map_option content (fs'' ''syncthing.md5'') = Some (''ab01'' @ [LF])"
proof -
  have nofail: "\<not> fails exampleWorld op" for op
    by (simp add: exampleWorld_def)
  have present: "files exampleWorld ''syncthing'' = Some \<lparr>content = ''ELF'', mode = 493, modTime = 13\<rparr>"
    by (simp add: exampleWorld_def exampleFiles_def)
  have hex: "hexOf [CHR 0xAB, CHR 0x01] = ''ab01''"
    by (simp add: hexOf_def hexDigit_def)
  from md5File_sidecar [OF nofail nofail nofail nofail nofail present, of "\<lambda>bs. [CHR 0xAB, CHR 0x01]"]
  obtain fs' fs'' where
    "md5File (\<lambda>bs. [CHR 0xAB, CHR 0x01]) exampleWorld ''syncthing'' = (None, fs')"
    "map_option content (fs' (''syncthing'' @ ''.md5'')) = Some (hexOf [CHR 0xAB, CHR 0x01] @ [LF])"
    "md5File (\<lambda>bs. [CHR 0xAB, CHR 0x01]) (exampleWorld\<lparr>files := fs'\<rparr>) ''syncthing'' = (None, fs'')"
    "map_option content (fs'' (''syncthing'' @ ''.md5'')) = map_option content (fs' (''syncthing'' @ ''.md5''))"
    by blast
  then have "md5File (\<lambda>bs. [CHR 0xAB, CHR 0x01]) exampleWorld ''syncthing'' = (None, fs') \<and>
     map_option content (fs' ''syncthing.md5'') = Some (''ab01'' @ [LF]) \<and>
     md5File (\<lambda>bs. [CHR 0xAB, CHR 0x01]) (exampleWorld\<lparr>files := fs'\<rparr>) ''syncthing'' = (None, fs'') \<and>
     map_option content (fs'' ''syncthing.md5'') = Some (''ab01'' @ [LF])"
    by (simp add: hex)
  then show ?thesis by blast
qed


section \<open>The control files of the Debian package\<close>

lemma Replace_skip:
  assumes "old \<noteq> []" "hd old \<notin> set a"
  shows "Replace (a @ b) old new = a @ Replace b old new"
  using assms(2)
proof (induction a)
  case Nil
  then show ?case by simp
next
  case (Cons c a)
  from assms(1) obtain o1 os where old: "old = o1 # os" by (cases old) auto
  with Cons.prems have "c \<noteq> o1" by auto
  then have "take (length old) (c # a @ b) \<noteq> old" using old by auto
  with Cons assms(1) show ?case by simp
qed

lemma Replace_none:
  assumes "old \<noteq> []" "hd old \<notin> set a"
  shows "Replace a old new = a"
  using Replace_skip [OF assms, of "[]" new] assms(1) by simp

lemma Replace_here:
  assumes "old \<noteq> []"
  shows "Replace (old @ b) old new = new @ Replace b old new"
proof -
  from assms obtain o1 os where old: "old = o1 # os" by (cases old) auto
  then show ?thesis by simp
qed

lemma debArch_no_brace: "CHR ''{'' \<notin> set (goarch c) \<Longrightarrow> CHR ''{'' \<notin> set (debArch c)"
  by (simp add: debArch_def)

lemma control_closed:
  assumes "CHR ''{'' \<notin> set (debArch c)"
  shows "Replace (Replace controlTemplate ''{{arch}}'' (debArch c)) ''{{version}}'' v1 =
      ''Package: syncthing'' @ [LF] @
      ''Architecture: '' @ debArch c @ [LF] @
      ''Depends: libc6'' @ [LF] @
      ''Version: '' @ v1 @ [LF] @
      ''Maintainer: Syncthing Release Management <release@syncthing.net>'' @ [LF] @
      ''Description: Open Source Continuous File Synchronization'' @ [LF] @
      [TAB] @ ''Syncthing does bidirectional synchronization of files between two or'' @ [LF] @
      [TAB] @ ''more computers.'' @ [LF]"
proof -
  let ?A = "''Package: syncthing'' @ [LF] @ ''Architecture: ''"
  let ?B = "[LF] @ ''Depends: libc6'' @ [LF] @ ''Version: ''"
  let ?C = "[LF] @ ''Maintainer: Syncthing Release Management <release@syncthing.net>'' @ [LF] @
      ''Description: Open Source Continuous File Synchronization'' @ [LF] @
      [TAB] @ ''Syncthing does bidirectional synchronization of files between two or'' @ [LF] @
      [TAB] @ ''more computers.'' @ [LF]"
  have ct: "controlTemplate = ?A @ ''{{arch}}'' @ ?B @ ''{{version}}'' @ ?C"
    by (simp add: controlTemplate_def)
  have "Replace (?A @ ''{{arch}}'' @ ?B @ ''{{version}}'' @ ?C) ''{{arch}}'' (debArch c)
      = ?A @ Replace (''{{arch}}'' @ ?B @ ''{{version}}'' @ ?C) ''{{arch}}'' (debArch c)"
    by (rule Replace_skip) simp_all
  also have "Replace (''{{arch}}'' @ ?B @ ''{{version}}'' @ ?C) ''{{arch}}'' (debArch c)
      = debArch c @ Replace (?B @ ''{{version}}'' @ ?C) ''{{arch}}'' (debArch c)"
    by (rule Replace_here) simp
  also have "Replace (?B @ ''{{version}}'' @ ?C) ''{{arch}}'' (debArch c)
      = ?B @ Replace (''{{version}}'' @ ?C) ''{{arch}}'' (debArch c)"
    by (rule Replace_skip) simp_all
  also have "Replace (''{{version}}'' @ ?C) ''{{arch}}'' (debArch c) = ''{{version}}'' @ ?C"
    by simp
  finally have c1: "Replace controlTemplate ''{{arch}}'' (debArch c)
      = (?A @ debArch c @ ?B) @ ''{{version}}'' @ ?C"
    by (simp only: ct append_assoc)
  have "Replace ((?A @ debArch c @ ?B) @ ''{{version}}'' @ ?C) ''{{version}}'' v1
      = (?A @ debArch c @ ?B) @ Replace (''{{version}}'' @ ?C) ''{{version}}'' v1"
    by (rule Replace_skip) (use assms(1) in simp_all)
  also have "Replace (''{{version}}'' @ ?C) ''{{version}}'' v1 = v1 @ Replace ?C ''{{version}}'' v1"
    by (rule Replace_here) simp
  also have "Replace ?C ''{{version}}'' v1 = ?C"
    by (rule Replace_none) simp_all
  finally show ?thesis
    by (simp only: c1 append_assoc)
qed

lemma changelog_closed:
  assumes "CHR ''{'' \<notin> set v1"
  shows "Replace (Replace (Replace changelogTemplate ''{{arch}}'' debarch) ''{{version}}'' v1)
           ''{{date}}'' date =
      ''syncthing ('' @ v1 @ ''); urgency=medium'' @ [LF] @
      [LF] @
      ''  * Packaging of '' @ v1 @ ''.'' @ [LF] @
      [LF] @
      '' -- Jakob Borg <jakob@nym.se>  '' @ date @ [LF]"
proof -
  let ?A = "''syncthing (''"
  let ?B = "''); urgency=medium'' @ [LF] @ [LF] @ ''  * Packaging of ''"
  let ?C = "''.'' @ [LF] @ [LF] @ '' -- Jakob Borg <jakob@nym.se>  ''"
  have l1: "Replace changelogTemplate ''{{arch}}'' debarch
      = ?A @ ''{{version}}'' @ ?B @ ''{{version}}'' @ ?C @ ''{{date}}'' @ [LF]"
    by (simp add: changelogTemplate_def)
  have "Replace (?A @ ''{{version}}'' @ ?B @ ''{{version}}'' @ ?C @ ''{{date}}'' @ [LF])
          ''{{version}}'' v1
      = ?A @ Replace (''{{version}}'' @ ?B @ ''{{version}}'' @ ?C @ ''{{date}}'' @ [LF])
          ''{{version}}'' v1"
    by (rule Replace_skip) simp_all
  also have "Replace (''{{version}}'' @ ?B @ ''{{version}}'' @ ?C @ ''{{date}}'' @ [LF])
          ''{{version}}'' v1
      = v1 @ Replace (?B @ ''{{version}}'' @ ?C @ ''{{date}}'' @ [LF]) ''{{version}}'' v1"
    by (rule Replace_here) simp
  also have "Replace (?B @ ''{{version}}'' @ ?C @ ''{{date}}'' @ [LF]) ''{{version}}'' v1
      = ?B @ Replace (''{{version}}'' @ ?C @ ''{{date}}'' @ [LF]) ''{{version}}'' v1"
    by (rule Replace_skip) simp_all
  also have "Replace (''{{version}}'' @ ?C @ ''{{date}}'' @ [LF]) ''{{version}}'' v1
      = v1 @ Replace (?C @ ''{{date}}'' @ [LF]) ''{{version}}'' v1"
    by (rule Replace_here) simp
  also have "Replace (?C @ ''{{date}}'' @ [LF]) ''{{version}}'' v1 = ?C @ ''{{date}}'' @ [LF]"
    by simp
  finally have l2: "Replace (?A @ ''{{version}}'' @ ?B @ ''{{version}}'' @ ?C @ ''{{date}}'' @ [LF])
          ''{{version}}'' v1
      = (?A @ v1 @ ?B @ v1 @ ?C) @ ''{{date}}'' @ [LF]"
    by (simp only: append_assoc)
  have "Replace ((?A @ v1 @ ?B @ v1 @ ?C) @ ''{{date}}'' @ [LF]) ''{{date}}'' date
      = (?A @ v1 @ ?B @ v1 @ ?C) @ Replace (''{{date}}'' @ [LF]) ''{{date}}'' date"
    by (rule Replace_skip) (use assms in simp_all)
  also have "Replace (''{{date}}'' @ [LF]) ''{{date}}'' date = date @ Replace [LF] ''{{date}}'' date"
    by (rule Replace_here) simp
  also have "Replace [LF] ''{{date}}'' date = [LF]"
    by simp
  finally have l3: "Replace ((?A @ v1 @ ?B @ v1 @ ?C) @ ''{{date}}'' @ [LF]) ''{{date}}'' date
      = (?A @ v1 @ ?B @ v1 @ ?C) @ date @ [LF]" .
  show ?thesis
    by (subst l1, subst l2, subst l3) simp
qed


lemma debControlFiles_Cons:
  assumes "version c = m # v1" "CHR ''{'' \<notin> set (goarch c)" "CHR ''{'' \<notin> set v1"
  shows "debControlFiles c date = Inr
     (''Package: syncthing'' @ [LF] @
      ''Architecture: '' @ debArch c @ [LF] @
      ''Depends: libc6'' @ [LF] @
      ''Version: '' @ v1 @ [LF] @
      ''Maintainer: Syncthing Release Management <release@syncthing.net>'' @ [LF] @
      ''Description: Open Source Continuous File Synchronization'' @ [LF] @
      [TAB] @ ''Syncthing does bidirectional synchronization of files between two or'' @ [LF] @
      [TAB] @ ''more computers.'' @ [LF],
      ''syncthing ('' @ v1 @ ''); urgency=medium'' @ [LF] @
      [LF] @
      ''  * Packaging of '' @ v1 @ ''.'' @ [LF] @
      [LF] @
      '' -- Jakob Borg <jakob@nym.se>  '' @ date @ [LF])"
proof -
  have nb: "CHR ''{'' \<notin> set (debArch c)"
    using assms(2) by (rule debArch_no_brace)
  have "debControlFiles c date = Inr
     (Replace (Replace controlTemplate ''{{arch}}'' (debArch c)) ''{{version}}'' v1,
      Replace (Replace (Replace changelogTemplate ''{{arch}}'' (debArch c)) ''{{version}}'' v1)
        ''{{date}}'' date)"
    using assms(1) by (simp add: debControlFiles_def sliceFrom1_def Let_def)
  then show ?thesis
    by (simp only: control_closed [OF nb] changelog_closed [OF assms(3)])
qed

text \<open>
  Claim C6, as stated, fails: for the fallback version \<open>unknown-dev\<close>, which has no
  leading format marker to strip (\<open>specStripMarker\<close> leaves it as it is), the control
  file gets the version \<open>nknown-dev\<close>.
\<close>

theorem debControlFiles_unknown_dev:
  "map_sum id fst (debControlFiles (exampleConfig\<lparr>version := ''unknown-dev''\<rparr>) ''Thu, 01 Jan 2015 00:00:00 UTC'') =
     Inr (''Package: syncthing'' @ [LF] @
      ''Architecture: amd64'' @ [LF] @
      ''Depends: libc6'' @ [LF] @
      ''Version: nknown-dev'' @ [LF] @
      ''Maintainer: Syncthing Release Management <release@syncthing.net>'' @ [LF] @
      ''Description: Open Source Continuous File Synchronization'' @ [LF] @
      [TAB] @ ''Syncthing does bidirectional synchronization of files between two or'' @ [LF] @
      [TAB] @ ''more computers.'' @ [LF]) \<and>
   specStripMarker ''unknown-dev'' = ''unknown-dev''"
proof -
  have "version (exampleConfig\<lparr>version := ''unknown-dev''\<rparr>) = CHR ''u'' # ''nknown-dev''"
    by simp
  from debControlFiles_Cons [OF this, of "''Thu, 01 Jan 2015 00:00:00 UTC''"]
  show ?thesis
    by (simp add: exampleConfig_def debArch_def specStripMarker_def)
qed

text \<open>
  Claim C6, amended. The architecture \<open>386\<close> is renamed to \<open>i386\<close> and every other
  architecture stays. The text put for \<open>{{version}}\<close> is the version without its first
  byte, whatever that byte is; with the empty version the slice expression panics. When
  neither the architecture nor the rest of the version contains an opening brace, the
  two files are the two templates with every placeholder replaced literally.
\<close>

theorem debControlFiles_templating:
  "debArch c = (if goarch c = ''386'' then ''i386'' else goarch c) \<and>
   (version c = [] \<longrightarrow> debControlFiles c date = Inl SliceBoundsOutOfRange) \<and>
   (\<forall>m v1. version c = m # v1 \<and> CHR ''{'' \<notin> set (goarch c) \<and> CHR ''{'' \<notin> set v1 \<longrightarrow>
      debControlFiles c date = Inr
       (''Package: syncthing'' @ [LF] @
        ''Architecture: '' @ debArch c @ [LF] @
        ''Depends: libc6'' @ [LF] @
        ''Version: '' @ v1 @ [LF] @
        ''Maintainer: Syncthing Release Management <release@syncthing.net>'' @ [LF] @
        ''Description: Open Source Continuous File Synchronization'' @ [LF] @
        [TAB] @ ''Syncthing does bidirectional synchronization of files between two or'' @ [LF] @
        [TAB] @ ''more computers.'' @ [LF],
        ''syncthing ('' @ v1 @ ''); urgency=medium'' @ [LF] @
        [LF] @
        ''  * Packaging of '' @ v1 @ ''.'' @ [LF] @
        [LF] @
        '' -- Jakob Borg <jakob@nym.se>  '' @ date @ [LF]))"
proof (intro conjI impI allI)
  show "debArch c = (if goarch c = ''386'' then ''i386'' else goarch c)"
    by (simp add: debArch_def)
next
  assume "version c = []"
  then show "debControlFiles c date = Inl SliceBoundsOutOfRange"
    by (simp add: debControlFiles_def sliceFrom1_def Let_def)
next
  fix m v1
  assume "version c = m # v1 \<and> CHR ''{'' \<notin> set (goarch c) \<and> CHR ''{'' \<notin> set v1"
  then show "debControlFiles c date = Inr
       (''Package: syncthing'' @ [LF] @
        ''Architecture: '' @ debArch c @ [LF] @
        ''Depends: libc6'' @ [LF] @
        ''Version: '' @ v1 @ [LF] @
        ''Maintainer: Syncthing Release Management <release@syncthing.net>'' @ [LF] @
        ''Description: Open Source Continuous File Synchronization'' @ [LF] @
        [TAB] @ ''Syncthing does bidirectional synchronization of files between two or'' @ [LF] @
        [TAB] @ ''more computers.'' @ [LF],
        ''syncthing ('' @ v1 @ ''); urgency=medium'' @ [LF] @
        [LF] @
        ''  * Packaging of '' @ v1 @ ''.'' @ [LF] @
        [LF] @
        '' -- Jakob Borg <jakob@nym.se>  '' @ date @ [LF])"
    using debControlFiles_Cons [of c m v1 date] by blast
qed

theorem debControlFiles_templating_witness:
  "debControlFiles \<lparr>goarch = ''386'', goos = ''linux'', noupgrade = True, version = ''v1.2.3''\<rparr>
     ''Thu, 01 Jan 2015 00:00:00 UTC'' = Inr
       (''Package: syncthing'' @ [LF] @
        ''Architecture: i386'' @ [LF] @
        ''Depends: libc6'' @ [LF] @
        ''Version: 1.2.3'' @ [LF] @
        ''Maintainer: Syncthing Release Management <release@syncthing.net>'' @ [LF] @
        ''Description: Open Source Continuous File Synchronization'' @ [LF] @
        [TAB] @ ''Syncthing does bidirectional synchronization of files between two or'' @ [LF] @
        [TAB] @ ''more computers.'' @ [LF],
        ''syncthing (1.2.3); urgency=medium'' @ [LF] @
        [LF] @
        ''  * Packaging of 1.2.3.'' @ [LF] @
        [LF] @
        '' -- Jakob Borg <jakob@nym.se>  Thu, 01 Jan 2015 00:00:00 UTC'' @ [LF])"
proof -
  let ?c = "\<lparr>goarch = ''386'', goos = ''linux'', noupgrade = True, version = ''v1.2.3''\<rparr>"
  have arch: "debArch ?c = ''i386''"
    using debControlFiles_templating [of ?c "''''"] by simp
  have "version ?c = CHR ''v'' # ''1.2.3'' \<and> CHR ''{'' \<notin> set (goarch ?c) \<and>
      CHR ''{'' \<notin> set ''1.2.3''"
    by simp
  with debControlFiles_templating [of ?c "''Thu, 01 Jan 2015 00:00:00 UTC''"]
  have "debControlFiles ?c ''Thu, 01 Jan 2015 00:00:00 UTC'' = Inr
       (''Package: syncthing'' @ [LF] @
        ''Architecture: '' @ debArch ?c @ [LF] @
        ''Depends: libc6'' @ [LF] @
        ''Version: '' @ ''1.2.3'' @ [LF] @
        ''Maintainer: Syncthing Release Management <release@syncthing.net>'' @ [LF] @
        ''Description: Open Source Continuous File Synchronization'' @ [LF] @
        [TAB] @ ''Syncthing does bidirectional synchronization of files between two or'' @ [LF] @
        [TAB] @ ''more computers.'' @ [LF],
        ''syncthing ('' @ ''1.2.3'' @ ''); urgency=medium'' @ [LF] @
        [LF] @
        ''  * Packaging of '' @ ''1.2.3'' @ ''.'' @ [LF] @
        [LF] @
        '' -- Jakob Borg <jakob@nym.se>  '' @ ''Thu, 01 Jan 2015 00:00:00 UTC'' @ [LF])"
    by blast
  then show ?thesis by (simp add: arch)
qed


section \<open>The check of the version of the Go tools\<close>

lemma bitlen_0: "bitlen 0 = 0"
  by (subst bitlen.simps) simp

lemma bitlen_1: "bitlen (Suc 0) = Suc 0"
  by (subst bitlen.simps) (simp add: bitlen_0)

lemma bitlen_step: "0 < n \<Longrightarrow> bitlen n = Suc (bitlen (n div 2))"
  by (subst bitlen.simps) simp

lemma bitlen_pos: "0 < n \<Longrightarrow> 2 ^ (bitlen n - 1) \<le> n"
proof (induction n rule: less_induct)
  case (less n)
  show ?case
  proof (cases "n div 2 = 0")
    case True
    with less.prems have "n = Suc 0" by presburger
    then show ?thesis by (simp add: bitlen_1)
  next
    case False
    then have half: "0 < n div 2" "n div 2 < n" using less.prems by simp_all
    from less.IH [OF half(2) half(1)] have ih: "2 ^ (bitlen (n div 2) - 1) \<le> n div 2" .
    have "0 < bitlen (n div 2)" using bitlen_step [OF half(1)] by simp
    then have "bitlen n - 1 = Suc (bitlen (n div 2) - 1)"
      using bitlen_step [OF less.prems] by simp
    then have "(2::nat) ^ (bitlen n - 1) = 2 * 2 ^ (bitlen (n div 2) - 1)" by simp
    also have "\<dots> \<le> 2 * (n div 2)" using ih by simp
    also have "\<dots> \<le> n" by simp
    finally show ?thesis .
  qed
qed

lemma bitlen_ge2: "2 \<le> n \<Longrightarrow> 2 \<le> bitlen n"
proof -
  assume n: "2 \<le> n"
  then have "0 < n div 2" by simp
  then have "0 < bitlen (n div 2)" using bitlen_step [of "n div 2"] by simp
  moreover have "bitlen n = Suc (bitlen (n div 2))" using n by (intro bitlen_step) simp
  ultimately show ?thesis by simp
qed


lemma roundHalfEven_ge_floor: "\<lfloor>y\<rfloor> \<le> roundHalfEven y"
  by (simp add: roundHalfEven_def Let_def)

lemma ilog2_binade: "1 \<le> x \<Longrightarrow> x < 2 \<Longrightarrow> ilog2 x = 0"
proof -
  assume x: "1 \<le> x" "x < 2"
  then have "\<lfloor>x\<rfloor> = 1" by linarith
  with x show ?thesis by (simp add: ilog2_def bitlen_1)
qed

lemma roundHalfEven_threshold:
  assumes "13 / 10 * 2 ^ 52 \<le> y"
  shows "5854679515581645 \<le> roundHalfEven y"
proof (cases "5854679515581645 \<le> \<lfloor>y\<rfloor>")
  case True
  then show ?thesis using roundHalfEven_ge_floor [of y] by linarith
next
  case False
  have "(5854679515581644::rat) \<le> y" using assms by simp
  then have "5854679515581644 \<le> \<lfloor>y\<rfloor>" by linarith
  with False have fl: "\<lfloor>y\<rfloor> = 5854679515581644" by linarith
  have "1 / 2 < y - of_int \<lfloor>y\<rfloor>" using assms unfolding fl by simp
  then show ?thesis using fl by (simp add: roundHalfEven_def Let_def)
qed


lemma round64_binade:
  assumes "1 \<le> x" "x < 2"
  shows "round64 x = of_int (roundHalfEven (x * 2 ^ 52)) / 2 ^ 52"
  using assms by (simp add: round64_def ilog2_binade pow2_def Let_def)

lemma minGoVersion_value: "minGoVersion = 5854679515581645 / 4503599627370496"
proof -
  have fl: "\<lfloor>(29273397577908224::rat) / 5\<rfloor> = 5854679515581644"
    by (rule floor_unique) simp_all
  have "roundHalfEven (13 / 10 * 2 ^ 52) = 5854679515581645"
    by (simp add: roundHalfEven_def Let_def fl)
  then show ?thesis
    by (simp add: minGoVersion_def round64_binade)
qed


lemma pow2_powi: "pow2 k = 2 powi k"
  by (simp add: pow2_def power_int_def inverse_eq_divide power_one_over)

lemma pow2_pos: "0 < pow2 k"
  by (simp add: pow2_powi)

lemma round64_large:
  assumes "2 \<le> x"
  shows "2 \<le> round64 x"
proof -
  define n where "n = nat \<lfloor>x\<rfloor>"
  define k where "k = bitlen n - 1"
  have n2: "2 \<le> n" using assms unfolding n_def by linarith
  have k1: "1 \<le> k" using bitlen_ge2 [OF n2] unfolding k_def by simp
  have "2 ^ k \<le> n" unfolding k_def using n2 by (intro bitlen_pos) simp
  then have "(2::rat) ^ k \<le> of_nat n"
    by (metis of_nat_le_iff of_nat_numeral of_nat_power)
  also have "\<dots> \<le> x" using assms unfolding n_def by simp
  finally have kx: "(2::rat) ^ k \<le> x" .
  have e: "ilog2 x = int k"
    using assms bitlen_ge2 [OF n2] by (simp add: ilog2_def n_def k_def)
  define q where "q = pow2 (int k - 52)"
  have q0: "0 < q" unfolding q_def by (rule pow2_pos)
  have p52: "(2::rat) powi 52 = 2 ^ 52"
    by (simp add: power_int_def)
  have "q * 2 ^ 52 = 2 powi (int k - 52) * 2 powi 52"
    by (simp only: q_def pow2_powi p52)
  also have "\<dots> = 2 powi (int k - 52 + 52)"
    by (rule power_int_add [symmetric]) simp
  also have "\<dots> = 2 ^ k" by simp
  finally have qk: "q * 2 ^ 52 = 2 ^ k" .
  have r: "round64 x = of_int (roundHalfEven (x / q)) * q"
    using assms by (simp add: round64_def e q_def Let_def)
  have "(2::rat) ^ 52 = 2 ^ k / q" using qk q0 by (simp add: field_simps)
  also have "\<dots> \<le> x / q" using kx q0 by (simp add: divide_right_mono)
  finally have "(2::rat) ^ 52 \<le> x / q" .
  then have "2 ^ 52 \<le> \<lfloor>x / q\<rfloor>" by (simp add: le_floor_iff)
  then have "2 ^ 52 \<le> roundHalfEven (x / q)"
    using roundHalfEven_ge_floor [of "x / q"] by linarith
  then have "(2::rat) ^ 52 \<le> of_int (roundHalfEven (x / q))"
    by (metis of_int_le_iff of_int_numeral of_int_power)
  then have "2 ^ 52 * q \<le> of_int (roundHalfEven (x / q)) * q"
    using q0 by (simp add: mult_right_mono)
  then have "(2::rat) ^ k \<le> round64 x" using qk r by (simp add: mult.commute)
  moreover have "(2::rat) ^ 1 \<le> 2 ^ k" using k1 by (intro power_increasing) simp_all
  ultimately show ?thesis by simp
qed

lemma round64_ge_min:
  assumes "13 / 10 \<le> x"
  shows "minGoVersion \<le> round64 x"
proof (cases "x < 2")
  case True
  with assms have "round64 x = of_int (roundHalfEven (x * 2 ^ 52)) / 2 ^ 52"
    by (intro round64_binade) simp_all
  moreover have "13 / 10 * 2 ^ 52 \<le> x * 2 ^ 52" using assms by simp
  then have "5854679515581645 \<le> roundHalfEven (x * 2 ^ 52)"
    by (rule roundHalfEven_threshold)
  then have "(5854679515581645::rat) \<le> of_int (roundHalfEven (x * 2 ^ 52))"
    by (metis of_int_le_iff of_int_numeral)
  ultimately show ?thesis by (simp add: minGoVersion_value field_simps)
next
  case False
  then have "2 \<le> round64 x" by (intro round64_large) simp
  then show ?thesis by (simp add: minGoVersion_value)
qed


lemma matchHere_last_unbounded:
  "matchHere [Rep p lo None] s =
     (let m = length (takeWhile p s) in if lo \<le> m then Some [m] else None)"
proof -
  have "firstSome (\<lambda>n. Some [n]) (rev [lo..<Suc m]) = (if lo \<le> m then Some [m] else None)" for m
    by (cases "lo \<le> m") auto
  then show ?thesis by (simp add: counts_def Let_def)
qed

lemma matchHere_Rep_then_Lit_unbounded:
  assumes "\<not> p c"
  shows "matchHere (Rep p lo None # Lit c # its) s =
     (let k = length (takeWhile p s) in
      if lo \<le> k then map_option (Cons k) (matchHere (Lit c # its) (drop k s)) else None)"
proof -
  let ?k = "length (takeWhile p s)"
  let ?f = "\<lambda>n. map_option (Cons n) (matchHere (Lit c # its) (drop n s))"
  have fail: "?f n = None" if "n < ?k" for n
  proof -
    from that have "n < length s" using length_takeWhile_le [of p s] by simp
    then have "drop n s = s ! n # drop (Suc n) s" by (simp add: Cons_nth_drop_Suc)
    moreover have "p (s ! n)" using that by (rule takeWhile_nth_holds)
    ultimately show ?thesis using assms by (auto simp add: matchHere_Lit simp del: matchHere.simps)
  qed
  have "matchHere (Rep p lo None # Lit c # its) s = firstSome ?f (rev [lo..<Suc ?k])"
    by (simp add: counts_def Let_def)
  also have "\<dots> = (if lo \<le> ?k then ?f ?k else None)"
    by (rule firstSome_rev_upt_last) (use fail in auto)
  finally show ?thesis by (simp add: Let_def)
qed

lemma matchHere_literals:
  "matchHere (map Lit lit @ its) s =
     (if take (length lit) s = lit
      then map_option (append (replicate (length lit) 1)) (matchHere its (drop (length lit) s))
      else None)"
proof (induction lit arbitrary: s)
  case Nil
  have "(append [] :: nat list \<Rightarrow> nat list) = id" by (rule ext) simp
  then show ?case by (simp add: option.map_id)
next
  case (Cons c lit)
  show ?case
  proof (cases s)
    case Nil
    then show ?thesis by (simp add: matchHere_Lit del: matchHere.simps)
  next
    case (Cons x xs)
    have "matchHere (map Lit (c # lit) @ its) (x # xs) =
        (if x = c then map_option (Cons 1) (matchHere (map Lit lit @ its) xs) else None)"
      by (simp add: matchHere_Lit del: matchHere.simps)
    then show ?thesis
      using Cons Cons.IH [of xs]
      by (auto simp: option.map_comp comp_def simp del: matchHere.simps)
  qed
qed

lemma findFirst_Some:
  "findFirst its s = Some (i, ns) \<Longrightarrow> i \<le> length s \<and> matchHere its (drop i s) = Some ns"
proof (induction s arbitrary: i)
  case Nil
  then show ?case by auto
next
  case (Cons c cs)
  show ?case
  proof (cases "matchHere its (c # cs)")
    case (Some ms)
    with Cons.prems show ?thesis by simp
  next
    case None
    with Cons.prems obtain j where j: "findFirst its cs = Some (j, ns)" "i = Suc j"
      by auto
    from Cons.IH [OF j(1)] j(2) show ?thesis by simp
  qed
qed


lemma takeWhile_all: "list_all p (takeWhile p xs)"
  by (induction xs) auto

lemma goVersionRe_shape:
  assumes "matchHere goVersionRe s = Some ns"
  shows "\<exists>ip fp rest. s = ''go version go'' @ ip @ CHR ''.'' # fp @ rest \<and>
           ip \<noteq> [] \<and> fp \<noteq> [] \<and> list_all isDigit ip \<and> list_all isDigit fp \<and>
           ns = replicate 13 1 @ [length ip, 1, length fp]"
proof -
  have nd: "\<not> isDigit CHR ''.''" by (simp add: isDigit_def)
  define s1 where "s1 = drop 13 s"
  define ip where "ip = takeWhile isDigit s1"
  define t where "t = drop (length ip) s1"
  define A where "A = matchHere [Rep isDigit 1 None, Lit CHR ''.'', Rep isDigit 1 None] s1"
  define B where "B = matchHere [Lit CHR ''.'', Rep isDigit 1 None] t"
  have l13: "length ''go version go'' = 13" by simp
  have m: "matchHere goVersionRe s =
      (if take 13 s = ''go version go'' then map_option (append (replicate 13 1)) A else None)"
    unfolding goVersionRe_def s1_def A_def
    by (subst matchHere_literals) (simp only: l13)
  have m2: "A = (if 1 \<le> length ip then map_option (Cons (length ip)) B else None)"
    unfolding ip_def t_def A_def B_def
    using matchHere_Rep_then_Lit_unbounded [of isDigit "CHR ''.''" 1 "[Rep isDigit 1 None]" s1, OF nd]
    by (simp add: Let_def del: matchHere.simps)
  have m3: "B =
      (case t of [] \<Rightarrow> None
       | x # xs \<Rightarrow> if x = CHR ''.''
           then map_option (Cons 1)
                  (let h = length (takeWhile isDigit xs) in if 1 \<le> h then Some [h] else None)
           else None)"
    unfolding B_def by (simp only: matchHere_Lit matchHere_last_unbounded)
  from assms m have pre: "take 13 s = ''go version go''"
    by (auto split: if_splits)
  with assms m obtain ms where ms: "A = Some ms" "ns = replicate 13 1 @ ms"
    by auto
  with m2 have ip1: "1 \<le> length ip" by (auto split: if_splits)
  with ms m2 obtain ms' where ms': "B = Some ms'" "ms = length ip # ms'"
    by auto
  with m3 obtain xs where t: "t = CHR ''.'' # xs" and h1: "1 \<le> length (takeWhile isDigit xs)"
    and msv: "ms' = [1, length (takeWhile isDigit xs)]"
    by (auto simp: Let_def split: list.splits if_splits)
  define fp where "fp = takeWhile isDigit xs"
  have "s = take 13 s @ s1" by (simp add: s1_def)
  moreover have "s1 = ip @ t" unfolding t_def ip_def
    by (metis append_take_drop_id takeWhile_eq_take)
  moreover have "xs = fp @ dropWhile isDigit xs" by (simp add: fp_def)
  ultimately have "s = ''go version go'' @ ip @ CHR ''.'' # fp @ dropWhile isDigit xs"
    using pre t by metis
  moreover have "list_all isDigit ip" "list_all isDigit fp"
    unfolding ip_def fp_def by (rule takeWhile_all)+
  moreover have "ip \<noteq> []" "fp \<noteq> []" using ip1 h1 unfolding fp_def by auto
  moreover have "ns = replicate 13 1 @ [length ip, 1, length fp]"
    using ms(2) ms'(2) msv by (simp add: fp_def)
  ultimately show ?thesis by blast
qed

lemma FindSubmatch_token:
  assumes "FindSubmatch goVersionRe 13 16 s = [whole, vs]"
  shows "\<exists>ip fp. vs = ip @ CHR ''.'' # fp \<and> ip \<noteq> [] \<and> fp \<noteq> [] \<and>
           list_all isDigit ip \<and> list_all isDigit fp"
proof -
  from assms obtain i ns where f: "findFirst goVersionRe s = Some (i, ns)"
    and vs: "vs = take (sum_list (take (16 - 13) (drop 13 ns))) (drop (i + sum_list (take 13 ns)) s)"
    by (auto simp: FindSubmatch_def split: option.splits)
  from findFirst_Some [OF f] have "matchHere goVersionRe (drop i s) = Some ns" by simp
  from goVersionRe_shape [OF this] obtain ip fp rest where
    sh: "drop i s = ''go version go'' @ ip @ CHR ''.'' # fp @ rest"
    and ok: "ip \<noteq> []" "fp \<noteq> []" "list_all isDigit ip" "list_all isDigit fp"
    and ns: "ns = replicate 13 1 @ [length ip, 1, length fp]"
    by blast
  have n13: "sum_list (take 13 ns) = 13" and n3: "sum_list (take (16 - 13) (drop 13 ns)) = length ip + 1 + length fp"
    unfolding ns by (simp_all add: eval_nat_numeral)
  have "drop (i + 13) s = drop 13 (drop i s)" by (simp add: add.commute)
  also have "\<dots> = (ip @ CHR ''.'' # fp) @ rest" unfolding sh by simp
  finally have "vs = ip @ CHR ''.'' # fp"
    using vs n13 n3 by simp
  with ok show ?thesis by blast
qed


lemma digitsValue_nonneg:
  assumes "list_all isDigit ds"
  shows "0 \<le> digitsValue ds"
proof -
  have "0 \<le> acc \<Longrightarrow> list_all isDigit ds \<Longrightarrow>
      0 \<le> foldl (\<lambda>acc d. 10 * acc + (of_char d - 48)) (acc::int) ds" for acc
  proof (induction ds arbitrary: acc)
    case Nil
    then show ?case by simp
  next
    case (Cons d ds)
    from Cons.prems(2) have "isDigit d" by simp
    then have "(48::int) \<le> of_char d" by (auto simp: isDigit_def)
    with Cons.prems(1) have "0 \<le> 10 * acc + (of_char d - 48)" by simp
    with Cons.IH Cons.prems(2) show ?case by simp
  qed
  with assms show ?thesis unfolding digitsValue_def by simp
qed

lemma token_split:
  assumes "list_all isDigit ip" "list_all isDigit fp"
  shows "takeWhile isDigit (ip @ CHR ''.'' # fp) = ip"
    and "dropWhile isDigit (ip @ CHR ''.'' # fp) = CHR ''.'' # fp"
  using assms by (induction ip) (auto simp: isDigit_def)

lemma decimalValue_nonneg:
  assumes "list_all isDigit ip" "list_all isDigit fp"
  shows "0 \<le> decimalValue (ip @ CHR ''.'' # fp)"
  using digitsValue_nonneg [OF assms(1)] digitsValue_nonneg [OF assms(2)]
  by (simp add: decimalValue_def token_split [OF assms] Let_def)

lemma ParseFloat_token:
  assumes "ip \<noteq> []" "fp \<noteq> []" "list_all isDigit ip" "list_all isDigit fp"
  shows "ParseFloat (ip @ CHR ''.'' # fp) =
     (if pow2 1024 \<le> round64 (decimalValue (ip @ CHR ''.'' # fp)) then Inl ErrRange
      else Inr (round64 (decimalValue (ip @ CHR ''.'' # fp))))"
  using assms(1,2,4)
  by (simp add: ParseFloat_def token_split [OF assms(3,4)] Let_def)

lemma roundHalfEven_le: "roundHalfEven y \<le> \<lfloor>y\<rfloor> + 1"
  by (simp add: roundHalfEven_def Let_def)

lemma roundHalfEven_below:
  assumes "y \<le> 13 / 10 * 2 ^ 52 - 9 / 20"
  shows "roundHalfEven y < 5854679515581645"
proof (cases "\<lfloor>y\<rfloor> \<le> 5854679515581643")
  case True
  then show ?thesis using roundHalfEven_le [of y] by linarith
next
  case False
  have "y < 5854679515581645" using assms by simp
  then have "\<lfloor>y\<rfloor> < 5854679515581645" by linarith
  with False have fl: "\<lfloor>y\<rfloor> = 5854679515581644" by linarith
  have "y - of_int \<lfloor>y\<rfloor> < 1 / 2" using assms unfolding fl by simp
  then show ?thesis using fl by (simp add: roundHalfEven_def Let_def)
qed


lemma pow2_mono: "a \<le> b \<Longrightarrow> pow2 a \<le> pow2 b"
  by (simp add: pow2_powi power_int_increasing)

lemma ilog2_small:
  assumes "0 < x" "x < 1"
  shows "ilog2 x \<le> - 1"
proof -
  have "1 < 1 / x" using assms by simp
  then have "2 \<le> \<lceil>1 / x\<rceil>" by linarith
  then have "0 < nat (\<lceil>1 / x\<rceil> - 1)" by simp
  then have "0 < bitlen (nat (\<lceil>1 / x\<rceil> - 1))" by (simp add: bitlen_step)
  with assms show ?thesis by (simp add: ilog2_def)
qed

lemma round64_small:
  assumes "0 < x" "x < 1"
  shows "round64 x \<le> x + 1 / 2 ^ 53"
proof -
  define q where "q = pow2 (max (ilog2 x) (- 1022) - 52)"
  have q0: "0 < q" unfolding q_def by (rule pow2_pos)
  have "max (ilog2 x) (- 1022) - 52 \<le> - 53" using ilog2_small [OF assms] by simp
  then have "q \<le> pow2 (- 53)" unfolding q_def by (rule pow2_mono)
  then have q53: "q \<le> 1 / 2 ^ 53" by (simp add: pow2_def)
  have r: "round64 x = of_int (roundHalfEven (x / q)) * q"
    using assms by (simp add: round64_def q_def Let_def)
  have "of_int (roundHalfEven (x / q)) \<le> (of_int (\<lfloor>x / q\<rfloor> + 1) :: rat)"
    using roundHalfEven_le [of "x / q"] by (simp only: of_int_le_iff)
  also have "\<dots> \<le> x / q + 1" by simp
  finally have "of_int (roundHalfEven (x / q)) * q \<le> (x / q + 1) * q"
    using q0 by (simp add: mult_right_mono)
  also have "\<dots> = x + q" using q0 by (simp add: field_simps)
  finally show ?thesis using r q53 by simp
qed

lemma round64_lt_min:
  assumes "0 \<le> x" "x \<le> 13 / 10 - 1 / 10 ^ 16"
  shows "round64 x < minGoVersion"
proof -
  consider "x = 0" | "0 < x" "x < 1" | "1 \<le> x" using assms(1) by linarith
  then show ?thesis
  proof cases
    case 1
    then show ?thesis by (simp add: round64_def minGoVersion_value)
  next
    case 2
    then have "round64 x \<le> x + 1 / 2 ^ 53" by (rule round64_small)
    also have "\<dots> < 1 + 1 / 2 ^ 53" using 2 by simp
    also have "\<dots> < minGoVersion" by (simp add: minGoVersion_value)
    finally show ?thesis .
  next
    case 3
    have x2: "x < 2" using assms(2) by simp
    have "x * 2 ^ 52 \<le> (13 / 10 - 1 / 10 ^ 16) * 2 ^ 52"
      using assms(2) by simp
    also have "\<dots> \<le> 13 / 10 * 2 ^ 52 - 9 / 20" by simp
    finally have "roundHalfEven (x * 2 ^ 52) < 5854679515581645"
      by (rule roundHalfEven_below)
    then have "(of_int (roundHalfEven (x * 2 ^ 52)) :: rat) < 5854679515581645"
      by (metis of_int_less_iff of_int_numeral)
    then show ?thesis
      using round64_binade [OF 3 x2] by (simp add: minGoVersion_value field_simps)
  qed
qed


lemma run_Inr: "run (Inr out) = Inr (TrimSpace out)"
  by (simp add: run_def runError_def TrimSpace_idem)

lemma ParseFloat_Inr: "ParseFloat vs = Inr f \<Longrightarrow> f = round64 (decimalValue vs)"
  by (auto simp: ParseFloat_def Let_def split: if_splits)

text \<open>
  What the check does. It reads the token \<open>major.minor\<close> after \<open>go version go\<close> and
  parses it as a \<open>float64\<close>. Without such a token, or when the token does not parse,
  the check proceeds with one warning; when the parsed number is below the \<open>float64\<close>
  1.3 the check is fatal; when it is at or above, the check proceeds without a warning. In
  terms of the token read as a decimal fraction: a value of at least 13/10 never makes the
  check fatal, and a value of at most 13/10 - 1/10^16 always does.
\<close>

lemma checkRequiredGoVersion_cases:
  assumes "goVersion = Inr out"
  shows "(FindSubmatch goVersionRe 13 16 (TrimSpace out) = [] \<longrightarrow>
            checkRequiredGoVersion goVersion = Proceeds [UnknownGoVersion (TrimSpace out)]) \<and>
         (\<forall>whole vs. FindSubmatch goVersionRe 13 16 (TrimSpace out) = [whole, vs] \<longrightarrow>
            (\<forall>err. ParseFloat vs = Inl err \<longrightarrow>
               checkRequiredGoVersion goVersion = Proceeds [CouldNotParse vs]) \<and>
            (\<forall>f. ParseFloat vs = Inr f \<longrightarrow>
               checkRequiredGoVersion goVersion =
                 (if f < minGoVersion then FatalTooOld f else Proceeds [])) \<and>
            (13 / 10 \<le> decimalValue vs \<longrightarrow>
               (\<exists>log. checkRequiredGoVersion goVersion = Proceeds log)) \<and>
            (decimalValue vs \<le> 13 / 10 - 1 / 10 ^ 16 \<longrightarrow>
               (\<exists>f. checkRequiredGoVersion goVersion = FatalTooOld f)))"
proof (intro conjI allI impI)
  assume "FindSubmatch goVersionRe 13 16 (TrimSpace out) = []"
  then show "checkRequiredGoVersion goVersion = Proceeds [UnknownGoVersion (TrimSpace out)]"
    using assms by (simp add: checkRequiredGoVersion_def run_Inr)
next
  fix whole vs err
  assume "FindSubmatch goVersionRe 13 16 (TrimSpace out) = [whole, vs]" "ParseFloat vs = Inl err"
  then show "checkRequiredGoVersion goVersion = Proceeds [CouldNotParse vs]"
    using assms by (simp add: checkRequiredGoVersion_def run_Inr)
next
  fix whole vs f
  assume "FindSubmatch goVersionRe 13 16 (TrimSpace out) = [whole, vs]" "ParseFloat vs = Inr f"
  then show "checkRequiredGoVersion goVersion =
      (if f < minGoVersion then FatalTooOld f else Proceeds [])"
    using assms by (simp add: checkRequiredGoVersion_def run_Inr)
next
  fix whole vs
  assume m: "FindSubmatch goVersionRe 13 16 (TrimSpace out) = [whole, vs]"
    and big: "13 / 10 \<le> decimalValue vs"
  show "\<exists>log. checkRequiredGoVersion goVersion = Proceeds log"
  proof (cases "ParseFloat vs")
    case (Inl err)
    with m assms show ?thesis by (simp add: checkRequiredGoVersion_def run_Inr)
  next
    case (Inr f)
    then have "f = round64 (decimalValue vs)" by (rule ParseFloat_Inr)
    with big have "\<not> f < minGoVersion" using round64_ge_min [of "decimalValue vs"] by simp
    with m assms Inr show ?thesis by (simp add: checkRequiredGoVersion_def run_Inr)
  qed
next
  fix whole vs
  assume m: "FindSubmatch goVersionRe 13 16 (TrimSpace out) = [whole, vs]"
    and small: "decimalValue vs \<le> 13 / 10 - 1 / 10 ^ 16"
  from FindSubmatch_token [OF m] obtain ip fp where
    vs: "vs = ip @ CHR ''.'' # fp" and ne: "ip \<noteq> []" "fp \<noteq> []"
    and dig: "list_all isDigit ip" "list_all isDigit fp"
    by blast
  have "0 \<le> decimalValue vs" unfolding vs using dig by (rule decimalValue_nonneg)
  then have low: "round64 (decimalValue vs) < minGoVersion"
    using small by (rule round64_lt_min)
  then have "round64 (decimalValue vs) < pow2 1024"
    by (simp add: minGoVersion_value pow2_def)
  then have "ParseFloat vs = Inr (round64 (decimalValue vs))"
    using ParseFloat_token [OF ne dig] by (simp add: vs)
  with m assms low show "\<exists>f. checkRequiredGoVersion goVersion = FatalTooOld f"
    by (simp add: checkRequiredGoVersion_def run_Inr)
qed

lemma find_go142:
  "FindSubmatch goVersionRe 13 16 (TrimSpace ''go version go1.4.2 linux/amd64'')
     = [''go version go1.4'', ''1.4'']"
  by code_simp

lemma find_go121:
  "FindSubmatch goVersionRe 13 16 (TrimSpace ''go version go1.2.1 linux/amd64'')
     = [''go version go1.2'', ''1.2'']"
  by code_simp

lemma find_devel:
  "FindSubmatch goVersionRe 13 16 (TrimSpace ''go version devel +a1b2c3 linux/amd64'') = []"
  by code_simp

lemma trim_devel:
  "TrimSpace ''go version devel +a1b2c3 linux/amd64'' = ''go version devel +a1b2c3 linux/amd64''"
  by code_simp

lemma decimal_14: "decimalValue ''1.4'' = 7 / 5"
  by (simp add: decimalValue_def digitsValue_def isDigit_def)

lemma decimal_12: "decimalValue ''1.2'' = 6 / 5"
  by (simp add: decimalValue_def digitsValue_def isDigit_def)

lemma parse_12: "ParseFloat ''1.2'' = Inr (5404319552844595 / 4503599627370496)"
proof -
  have fl: "\<lfloor>(27021597764222976::rat) / 5\<rfloor> = 5404319552844595"
    by (rule floor_unique) simp_all
  have "roundHalfEven (6 / 5 * 2 ^ 52) = 5404319552844595"
    by (simp add: roundHalfEven_def Let_def fl)
  then have "round64 (6 / 5) = 5404319552844595 / 4503599627370496"
    by (simp add: round64_binade)
  then show ?thesis
    by (simp add: ParseFloat_def decimal_12 isDigit_def pow2_def Let_def)
qed


lemma checkRequiredGoVersion_examples:
  "(\<exists>log. checkRequiredGoVersion (Inr ''go version go1.4.2 linux/amd64'') = Proceeds log) \<and>
   checkRequiredGoVersion (Inr ''go version go1.2.1 linux/amd64'')
     = FatalTooOld (5404319552844595 / 4503599627370496) \<and>
   checkRequiredGoVersion (Inr ''go version devel +a1b2c3 linux/amd64'')
     = Proceeds [UnknownGoVersion ''go version devel +a1b2c3 linux/amd64'']"
proof (intro conjI)
  have "13 / 10 \<le> decimalValue ''1.4''" by (simp add: decimal_14)
  with checkRequiredGoVersion_cases [OF refl, of "''go version go1.4.2 linux/amd64''"] find_go142
  show "\<exists>log. checkRequiredGoVersion (Inr ''go version go1.4.2 linux/amd64'') = Proceeds log"
    by blast
next
  have old: "(5404319552844595 / 4503599627370496 :: rat) < minGoVersion"
    by (simp add: minGoVersion_value)
  from checkRequiredGoVersion_cases [OF refl, of "''go version go1.2.1 linux/amd64''"]
    find_go121 parse_12
  have "checkRequiredGoVersion (Inr ''go version go1.2.1 linux/amd64'') =
      (if (5404319552844595 / 4503599627370496 :: rat) < minGoVersion
       then FatalTooOld (5404319552844595 / 4503599627370496) else Proceeds [])"
    by blast
  with old show "checkRequiredGoVersion (Inr ''go version go1.2.1 linux/amd64'')
     = FatalTooOld (5404319552844595 / 4503599627370496)"
    by simp
next
  from checkRequiredGoVersion_cases [OF refl, of "''go version devel +a1b2c3 linux/amd64''"]
    find_devel
  show "checkRequiredGoVersion (Inr ''go version devel +a1b2c3 linux/amd64'')
     = Proceeds [UnknownGoVersion ''go version devel +a1b2c3 linux/amd64'']"
    by (simp add: trim_devel)
qed

lemma find_go110:
  "FindSubmatch goVersionRe 13 16 (TrimSpace ''go version go1.10 linux/amd64'')
     = [''go version go1.10'', ''1.10'']"
  by code_simp

lemma find_offset:
  "FindSubmatch goVersionRe 13 16 (TrimSpace (''go: go version go1.4'' @ [LF]))
     = [''go version go1.4'', ''1.4'']"
  by code_simp

text \<open>
  Claim C5 fails for the tools of Go 1.10. Their version 1.10 is above the minimum 1.3:
  the major numbers are equal and the minor number 10 is above 3 (\<open>specAtLeast\<close>). The
  check reads the token \<open>1.10\<close> as the decimal fraction 1.1, finds the \<open>float64\<close> next
  to it below 1.3, and is fatal.
\<close>

theorem checkRequiredGoVersion_go110_fatal:
  "checkRequiredGoVersion (Inr ''go version go1.10 linux/amd64'')
     = FatalTooOld (2476979795053773 / 2251799813685248) \<and>
   specAtLeast (1, 10) (1, 3)"
proof -
  have d: "decimalValue ''1.10'' = 11 / 10"
    by (simp add: decimalValue_def digitsValue_def isDigit_def)
  have fl: "\<lfloor>(24769797950537728::rat) / 5\<rfloor> = 4953959590107545"
    by (rule floor_unique) simp_all
  have "roundHalfEven (11 / 10 * 2 ^ 52) = 4953959590107546"
    by (simp add: roundHalfEven_def Let_def fl)
  then have "round64 (11 / 10) = 2476979795053773 / 2251799813685248"
    by (simp add: round64_binade)
  then have "ParseFloat ''1.10'' = Inr (2476979795053773 / 2251799813685248)"
    by (simp add: ParseFloat_def d isDigit_def pow2_def Let_def)
  then show ?thesis
    using find_go110
    by (simp add: checkRequiredGoVersion_def run_Inr minGoVersion_value specAtLeast_def)
qed

end
